theory Spec2Isabelle
  imports Complex_Main "HOL-Library.Multiset"
begin

section \<open>Data model\<close>

text \<open>
  The program (src/KNN/main.cpp) stores every point as a \<^verbatim>\<open>std::vector<double>\<close>: the
  first \<open>d\<close> entries are the features, and a training point carries its class label at
  index \<open>d\<close>. A vector is modelled as a list. A \<^verbatim>\<open>double\<close> is modelled as the
  \<^typ>\<open>real\<close> number it stands for: the feature vectors of the specification are
  real-valued, so NaN and infinite components are left out. The comparison of two doubles
  is then the comparison of the reals, and the two casts between \<^verbatim>\<open>double\<close> and \<^verbatim>\<open>int\<close>
  are exact. The arithmetic on doubles is not exact; it is a parameter of the model (section
  Arithmetic on doubles).

  An \<^verbatim>\<open>int\<close> is modelled as an \<^typ>\<open>int\<close>. \<open>k\<close> and \<open>d\<close> are only compared and used as
  indices, the loop counters stay at or below the size of a vector and the tally of the vote
  stays between \<open>-k\<close> and \<open>k\<close>, so that no arithmetic of the source leaves the range of
  \<^verbatim>\<open>int\<close>. The size of a vector is read through \<^verbatim>\<open>(int)train.size()\<close>; every dataset of
  the program is built by \<^verbatim>\<open>generatePoints\<close> from an \<^verbatim>\<open>int\<close> count, so the cast is the
  identity and is modelled as \<^term>\<open>int (length train)\<close>.

  The two \<^verbatim>\<open>throw std::invalid_argument(msg)\<close> statements are the error value
  \<open>InvalidArgument msg\<close>. Reading a vector outside its range with \<^verbatim>\<open>operator[]\<close> is
  undefined behaviour in C++; the model makes it observable as the error \<open>OutOfBounds\<close>,
  so that a result other than \<open>OutOfBounds\<close> means that every read was in range.
\<close>

datatype error = InvalidArgument string | OutOfBounds

type_synonym Neighbor = "real \<times> int"

definition vec_at :: "'a list \<Rightarrow> int \<Rightarrow> error + 'a" where
  "vec_at v i = (if 0 \<le> i \<and> i < int (length v) then Inr (v ! nat i) else Inl OutOfBounds)"

text \<open>
  \<^verbatim>\<open>static_cast<int>(x)\<close> of a double truncates towards zero (for a value whose
  truncation is in the range of \<^verbatim>\<open>int\<close>, as the labels 0 and 1 are).
\<close>

definition double_to_int :: "real \<Rightarrow> int" where
  "double_to_int x = (if 0 \<le> x then \<lfloor>x\<rfloor> else \<lceil>x\<rceil>)"

section \<open>Arithmetic on doubles\<close>

text \<open>
  calcDistEuclidean subtracts, multiplies and adds doubles and calls \<^verbatim>\<open>std::sqrt\<close>. Each of
  these operations rounds, may overflow, and \<^verbatim>\<open>sum += diff * diff\<close> may be compiled into one
  fused operation; none of this is fixed by the source. The model therefore takes the
  arithmetic as a parameter \<open>fp\<close> and every theorem below holds for every \<open>fp\<close>:
  \<^item> \<open>fadd fp x y\<close> is the double that \<^verbatim>\<open>x + y\<close> gives, and \<open>fsqrt fp x\<close> the double that
    \<^verbatim>\<open>std::sqrt(x)\<close> gives; nothing is assumed of them.
  \<^item> \<open>rsub fp m\<close> and \<open>rmul fp m\<close> are the magnitudes of the doubles that a subtraction and a
    multiplication give when the magnitude of the exact result is \<open>m\<close>; nothing is assumed of
    them either. The result itself takes the sign of the exact result (\<open>dsub\<close> and \<open>dmul\<close>):
    this is what rounding to nearest, the rounding of a C++ program that does not change
    it, does to a difference and to a product.
  A result that overflows is an infinity in the program. The operations may return for it any
  real they like, such as one above every finite double.
\<close>

record arith =
  rsub :: "real \<Rightarrow> real"
  rmul :: "real \<Rightarrow> real"
  fadd :: "real \<Rightarrow> real \<Rightarrow> real"
  fsqrt :: "real \<Rightarrow> real"

definition dsub :: "arith \<Rightarrow> real \<Rightarrow> real \<Rightarrow> real" where
  "dsub fp x y = sgn (x - y) * rsub fp \<bar>x - y\<bar>"

definition dmul :: "arith \<Rightarrow> real \<Rightarrow> real \<Rightarrow> real" where
  "dmul fp x y = sgn (x * y) * rmul fp \<bar>x * y\<bar>"

text \<open>
  \<open>exact\<close> is the arithmetic that never rounds. Doubles compute as \<open>exact\<close> does as long as
  every value on the way is a double: on small integers whose sum of squared differences is
  a perfect square, as in all the examples below.
\<close>

definition exact :: arith where
  "exact = \<lparr>rsub = (\<lambda>m. m), rmul = (\<lambda>m. m), fadd = (\<lambda>x y. x + y), fsqrt = sqrt\<rparr>"

section \<open>calcDistEuclidean\<close>

text \<open>
  The loop \<^verbatim>\<open>for (int i = 0; i < d; ++i) { diff = p1[i] - p2[i]; sum += diff * diff; }\<close>
  with its loop variable \<open>i\<close> and accumulator \<open>sum\<close>, written \<open>sumsq\<close> (as \<open>dist\<close>, \<open>top\<close> and
  \<open>last\<close> get a prime below: the plain names are constants of HOL).
\<close>

function calcDist_loop ::
  "arith \<Rightarrow> real list \<Rightarrow> real list \<Rightarrow> int \<Rightarrow> int \<Rightarrow> real \<Rightarrow> error + real" where
  "calcDist_loop fp p1 p2 d i sumsq =
     (if i < d then
        (case vec_at p1 i of
           Inl e \<Rightarrow> Inl e
         | Inr a \<Rightarrow>
            (case vec_at p2 i of
               Inl e \<Rightarrow> Inl e
             | Inr b \<Rightarrow>
                (let diff = dsub fp a b
                 in calcDist_loop fp p1 p2 d (i + 1) (fadd fp sumsq (dmul fp diff diff)))))
      else Inr sumsq)"
  by pat_completeness auto
termination
  by (relation "measure (\<lambda>(fp, p1, p2, d, i, sumsq). nat (d - i))") auto

declare calcDist_loop.simps [simp del]

definition calcDistEuclidean :: "arith \<Rightarrow> real list \<Rightarrow> real list \<Rightarrow> int \<Rightarrow> error + real" where
  "calcDistEuclidean fp p1 p2 d =
     (case calcDist_loop fp p1 p2 d 0 0 of
        Inl e \<Rightarrow> Inl e
      | Inr sumsq \<Rightarrow> Inr (fsqrt fp sumsq))"

section \<open>The priority queue of neighbours\<close>

text \<open>
  The comparator \<open>cmp\<close> is the lambda of predictOne: it looks at the distance only, never
  at the index.
\<close>

definition cmp :: "Neighbor \<Rightarrow> Neighbor \<Rightarrow> bool" where
  "cmp a b = (fst a < fst b)"

text \<open>
  Modelled from the spec: \<^verbatim>\<open>std::priority_queue<Neighbor, std::vector<Neighbor>, cmp>\<close> is
  the C++ standard library's and is not under src/. The spec (sections 4.2 and 9) asks for an
  array-backed binary max-heap keyed by distance. The C++ standard defines the adaptor on its
  underlying vector \<open>c\<close>: \<open>top\<close> is \<open>c.front()\<close>, \<open>push\<close> is \<open>c.push_back(x)\<close> followed by
  \<open>push_heap\<close>, \<open>pop\<close> is \<open>pop_heap\<close> followed by \<open>c.pop_back()\<close>. The two heap algorithms
  follow the GNU implementation (bits/stl_heap.h), on a list for the vector and positions
  counted from 0:
  \<^item> \<open>push_heap_loop\<close> is \<^verbatim>\<open>__push_heap(first, holeIndex, topIndex, value, comp)\<close>: while the
    hole is below \<open>topIndex\<close> and its parent compares less than the value, the parent moves
    into the hole and the hole moves up; then the value is stored in the hole.
  \<^item> \<open>push_heap\<close> starts it at the last position with the value stored there.
  \<^item> \<open>adjust_down\<close> is the first loop of \<^verbatim>\<open>__adjust_heap(first, holeIndex, len, value, comp)\<close>:
    while the hole has two children in the range of length \<open>len\<close>, the child that does not
    compare less than the other (the right one on a tie) moves into the hole and the hole
    moves down; it returns the vector and the position of the hole.
  \<^item> \<open>adjust_heap\<close> adds the case of a last parent with a left child only (\<open>len\<close> even) and
    then moves the value up from the hole with \<open>push_heap_loop\<close>. The test \<open>2 \<le> len\<close>
    stands for the signed division of the source, where \<open>(len - 2) / 2\<close> is not a position
    when \<open>len < 2\<close>.
  \<^item> \<open>pop_heap\<close> stores the root in the last position and calls \<open>adjust_heap\<close> on the range
    before it with the former last value; it does nothing on fewer than two entries.
  \<open>pq_top\<close> on an empty queue reads \<open>c.front()\<close> of an empty vector, which is out of range.
\<close>

function push_heap_loop :: "Neighbor list \<Rightarrow> nat \<Rightarrow> nat \<Rightarrow> Neighbor \<Rightarrow> Neighbor list" where
  "push_heap_loop h holeIndex topIndex val =
     (let parent = (holeIndex - 1) div 2 in
      if holeIndex > topIndex \<and> cmp (h ! parent) val
      then push_heap_loop (h[holeIndex := h ! parent]) parent topIndex val
      else h[holeIndex := val])"
  by pat_completeness auto
termination
  by (relation "measure (\<lambda>(h, holeIndex, topIndex, val). holeIndex)") auto

declare push_heap_loop.simps [simp del]

definition push_heap :: "Neighbor list \<Rightarrow> Neighbor list" where
  "push_heap h = push_heap_loop h (length h - 1) 0 (h ! (length h - 1))"

function adjust_down :: "Neighbor list \<Rightarrow> nat \<Rightarrow> nat \<Rightarrow> Neighbor list \<times> nat" where
  "adjust_down h len holeIndex =
     (if holeIndex < (len - 1) div 2 then
        (let secondChild = 2 * (holeIndex + 1);
             secondChild = (if cmp (h ! secondChild) (h ! (secondChild - 1))
                            then secondChild - 1 else secondChild)
         in adjust_down (h[holeIndex := h ! secondChild]) len secondChild)
      else (h, holeIndex))"
  by pat_completeness auto
termination
  by (relation "measure (\<lambda>(h, len, holeIndex). len - holeIndex)") (auto simp: Let_def)

declare adjust_down.simps [simp del]

definition adjust_heap :: "Neighbor list \<Rightarrow> nat \<Rightarrow> nat \<Rightarrow> Neighbor \<Rightarrow> Neighbor list" where
  "adjust_heap h holeIndex len val =
     (let (h1, hole1) = adjust_down h len holeIndex;
          (h2, hole2) = (if even len \<and> 2 \<le> len \<and> hole1 = (len - 2) div 2
                         then (h1[hole1 := h1 ! (2 * (hole1 + 1) - 1)], 2 * (hole1 + 1) - 1)
                         else (h1, hole1))
      in push_heap_loop h2 hole2 holeIndex val)"

definition pop_heap :: "Neighbor list \<Rightarrow> Neighbor list" where
  "pop_heap h =
     (if length h > 1 then
        (let last' = length h - 1; val = h ! last'
         in adjust_heap (h[last' := h ! 0]) 0 last' val)
      else h)"

definition pq_push :: "Neighbor list \<Rightarrow> Neighbor \<Rightarrow> Neighbor list" where
  "pq_push h x = push_heap (h @ [x])"

definition pq_pop :: "Neighbor list \<Rightarrow> Neighbor list" where
  "pq_pop h = butlast (pop_heap h)"

definition pq_top :: "Neighbor list \<Rightarrow> error + Neighbor" where
  "pq_top h = vec_at h 0"

section \<open>predictOne\<close>

text \<open>
  The scan \<^verbatim>\<open>for (int i = 0; i < (int)train.size(); ++i)\<close> of predictOne, with the loop
  variable \<open>i\<close> and the heap as its state.
\<close>

function scan_loop ::
  "arith \<Rightarrow> real list list \<Rightarrow> real list \<Rightarrow> int \<Rightarrow> int \<Rightarrow> int \<Rightarrow> Neighbor list \<Rightarrow> error + Neighbor list" where
  "scan_loop fp train test k d i heap =
     (if i < int (length train) then
        (case vec_at train i of
           Inl e \<Rightarrow> Inl e
         | Inr row \<Rightarrow>
            (case calcDistEuclidean fp test row d of
               Inl e \<Rightarrow> Inl e
             | Inr dist' \<Rightarrow>
                if int (length heap) < k then
                  scan_loop fp train test k d (i + 1) (pq_push heap (dist', i))
                else
                  (case pq_top heap of
                     Inl e \<Rightarrow> Inl e
                   | Inr top' \<Rightarrow>
                      if dist' < fst top' then
                        scan_loop fp train test k d (i + 1) (pq_push (pq_pop heap) (dist', i))
                      else scan_loop fp train test k d (i + 1) heap)))
      else Inr heap)"
  by pat_completeness auto
termination
  by (relation "measure (\<lambda>(fp, train, test, k, d, i, heap). nat (int (length train) - i))") auto

declare scan_loop.simps [simp del]

text \<open>
  The vote \<^verbatim>\<open>while (!heap.empty())\<close> of predictOne, with the heap and the tally \<open>vote\<close>
  as its state. Every pass pops one entry, so the loop ends.
\<close>

function vote_loop :: "real list list \<Rightarrow> int \<Rightarrow> Neighbor list \<Rightarrow> int \<Rightarrow> error + int" where
  "vote_loop train d heap vote =
     (if heap \<noteq> [] then
        (case pq_top heap of
           Inl e \<Rightarrow> Inl e
         | Inr top' \<Rightarrow>
            (let idx = snd top' in
             case vec_at train idx of
               Inl e \<Rightarrow> Inl e
             | Inr row \<Rightarrow>
                (case vec_at row d of
                   Inl e \<Rightarrow> Inl e
                 | Inr x \<Rightarrow>
                    (let label = double_to_int x
                     in vote_loop train d (pq_pop heap)
                          (vote + (if label = 0 then - 1 else 1))))))
      else Inr vote)"
  by pat_completeness auto
termination
proof -
  have len_push: "length (push_heap_loop h i t v) = length h" for h i t v
    by (induction h i t v rule: push_heap_loop.induct)
       (subst push_heap_loop.simps, simp add: Let_def)
  have len_down: "length (fst (adjust_down h len i)) = length h" for h len i
    by (induction h len i rule: adjust_down.induct)
       (subst adjust_down.simps, simp add: Let_def)
  have len_pop: "length (pq_pop heap) < length heap" if "heap \<noteq> []" for heap
    using that len_down [of "heap[length heap - 1 := heap ! 0]" "length heap - 1" 0]
    by (auto simp: pq_pop_def pop_heap_def adjust_heap_def Let_def len_push
             split: prod.splits)
  show ?thesis
    by (relation "measure (\<lambda>(train, d, heap, vote). length heap)") (auto simp: len_pop)
qed

declare vote_loop.simps [simp del]

definition predictOne :: "arith \<Rightarrow> real list list \<Rightarrow> real list \<Rightarrow> int \<Rightarrow> int \<Rightarrow> error + int" where
  "predictOne fp train test k d =
     (if k \<le> 0 then Inl (InvalidArgument ''k must be > 0'')
      else if int (length train) < k
      then Inl (InvalidArgument ''k cannot be larger than number of training points'')
      else
        (case scan_loop fp train test k d 0 [] of
           Inl e \<Rightarrow> Inl e
         | Inr heap \<Rightarrow>
            (case vote_loop train d heap 0 of
               Inl e \<Rightarrow> Inl e
             | Inr vote \<Rightarrow> Inr (if vote \<ge> 0 then 1 else 0))))"

section \<open>findKNN\<close>

text \<open>
  findKNN mutates \<open>test_points\<close> in place and may leave through the exception of
  predictOne. The model returns the contents of \<open>test_points\<close> when the call is left,
  together with the exception if there is one: the points labelled before the throw keep
  their label, the others are untouched. \<open>train\<close> is a const reference: the model reads it
  and has no way to return a changed one.
\<close>

fun findKNN ::
  "arith \<Rightarrow> real list list \<Rightarrow> real list list \<Rightarrow> int \<Rightarrow> int \<Rightarrow> real list list \<times> error option" where
  "findKNN fp train [] k d = ([], None)"
| "findKNN fp train (point # points) k d =
     (case predictOne fp train point k d of
        Inl e \<Rightarrow> (point # points, Some e)
      | Inr cls \<Rightarrow>
         (let (points', exn) = findKNN fp train points k d
          in ((point @ [real_of_int cls]) # points', exn)))"


section \<open>Invariants of the binary heap\<close>

text \<open>
  \<open>heap_inv\<close>: no entry compares greater than its parent, the parent of position \<open>i\<close>
  being \<open>(i - 1) div 2\<close>. \<open>hole_inv h hole\<close>: the same for every position but the hole, whose
  content is stale, and the children of the hole are bounded by the parent of the hole.
  \<open>below h hole v\<close>: the children of the hole are bounded by the value \<open>v\<close> that is looking
  for its place.
\<close>

definition heap_inv :: "Neighbor list \<Rightarrow> bool" where
  "heap_inv h = (\<forall>i. 0 < i \<and> i < length h \<longrightarrow> fst (h ! i) \<le> fst (h ! ((i - 1) div 2)))"

definition hole_inv :: "Neighbor list \<Rightarrow> nat \<Rightarrow> bool" where
  "hole_inv h hole =
     (\<forall>i. 0 < i \<and> i < length h \<and> i \<noteq> hole \<longrightarrow>
        (if (i - 1) div 2 = hole
         then (0 < hole \<longrightarrow> fst (h ! i) \<le> fst (h ! ((hole - 1) div 2)))
         else fst (h ! i) \<le> fst (h ! ((i - 1) div 2))))"

definition below :: "Neighbor list \<Rightarrow> nat \<Rightarrow> Neighbor \<Rightarrow> bool" where
  "below h hole v = (\<forall>i. 0 < i \<and> i < length h \<and> (i - 1) div 2 = hole \<longrightarrow> fst (h ! i) \<le> fst v)"

text \<open>
  \<open>scan_inv ds k i heap\<close>: the state of the scan before training point \<open>i\<close>, the distances
  of the training points being \<open>ds\<close>: the heap is a heap of \<open>min i k\<close> entries \<open>(ds ! j, j)\<close>
  with distinct indices \<open>j < i\<close>, and no point before \<open>i\<close> that is out of the heap is closer
  than a point in it.
\<close>

definition scan_inv :: "real list \<Rightarrow> int \<Rightarrow> int \<Rightarrow> Neighbor list \<Rightarrow> bool" where
  "scan_inv ds k i heap =
     (heap_inv heap \<and> int (length heap) = min i k \<and> distinct (map snd heap) \<and>
      (\<forall>(x, j)\<in>set heap. 0 \<le> j \<and> j < i \<and> x = ds ! nat j) \<and>
      (\<forall>(x, j)\<in>set heap. \<forall>j'. 0 \<le> j' \<and> j' < i \<and> j' \<notin> snd ` set heap \<longrightarrow> x \<le> ds ! nat j'))"


section \<open>Definitions for the claims\<close>

text \<open>
  Definitions that state the claims. \<open>distance fp p q d\<close> is the distance of the program:
  the double that calcDistEuclidean returns for \<open>p\<close> and \<open>q\<close>, rounded as the program rounds
  it (lemma \<open>calcDistEuclidean_in_bounds\<close>); \<open>distances\<close> is the list of the distances of all
  training points to the query. \<open>features_ok\<close>: the query and every training vector have at
  least \<open>d\<close> components; \<open>labels_ok\<close>: every training vector has a component at index \<open>d\<close>,
  where predictOne reads the label. \<open>k_nearest_sorted\<close> follows the words of the
  specification: all distances, paired with their index, are sorted by distance (the sort is
  stable, so that equal distances stay in index order) and the first \<open>k\<close> pairs are taken.
  \<open>contribution\<close> is the summand \<^verbatim>\<open>(label == 0) ? -1 : 1\<close> of the vote and \<open>tally\<close> its sum
  over a heap.
\<close>

definition distance :: "arith \<Rightarrow> real list \<Rightarrow> real list \<Rightarrow> int \<Rightarrow> real" where
  "distance fp p q d = projr (calcDistEuclidean fp p q d)"

definition distances :: "arith \<Rightarrow> real list list \<Rightarrow> real list \<Rightarrow> int \<Rightarrow> real list" where
  "distances fp train test d = map (\<lambda>row. distance fp test row d) train"

definition features_ok :: "real list list \<Rightarrow> real list \<Rightarrow> int \<Rightarrow> bool" where
  "features_ok train test d = (d \<le> int (length test) \<and> (\<forall>row\<in>set train. d \<le> int (length row)))"

definition labels_ok :: "real list list \<Rightarrow> int \<Rightarrow> bool" where
  "labels_ok train d = (0 \<le> d \<and> (\<forall>row\<in>set train. d < int (length row)))"

definition k_nearest_sorted :: "arith \<Rightarrow> real list list \<Rightarrow> real list \<Rightarrow> int \<Rightarrow> int \<Rightarrow> Neighbor list" where
  "k_nearest_sorted fp train test k d =
     take (nat k) (sort_key fst (zip (distances fp train test d) (map int [0..<length train])))"

definition contribution :: "real \<Rightarrow> int" where
  "contribution x = (if double_to_int x = 0 then - 1 else 1)"

definition tally :: "real list list \<Rightarrow> int \<Rightarrow> Neighbor list \<Rightarrow> int" where
  "tally train d heap = (\<Sum>(x, j)\<leftarrow>heap. contribution (train ! nat j ! nat d))"

section \<open>Vector reads and the distance\<close>

lemma vec_at_error: "vec_at v i = Inl e \<Longrightarrow> e = OutOfBounds"
  by (simp add: vec_at_def split: if_splits)

lemma vec_at_in_bounds: "0 \<le> i \<Longrightarrow> i < int (length v) \<Longrightarrow> vec_at v i = Inr (v ! nat i)"
  by (simp add: vec_at_def)

lemma calcDist_loop_error: "calcDist_loop fp p1 p2 d i s = Inl e \<Longrightarrow> e = OutOfBounds"
proof (induction fp p1 p2 d i s rule: calcDist_loop.induct)
  case (1 fp p1 p2 d i s)
  show ?case
  proof (cases "i < d")
    case False
    with "1.prems" show ?thesis by (simp add: calcDist_loop.simps [of fp p1 p2 d i s])
  next
    case True
    show ?thesis
    proof (cases "vec_at p1 i")
      case (Inl e1)
      with True "1.prems" show ?thesis
        by (simp add: calcDist_loop.simps [of fp p1 p2 d i s] vec_at_error)
    next
      case a: (Inr a)
      show ?thesis
      proof (cases "vec_at p2 i")
        case (Inl e2)
        with True a "1.prems" show ?thesis
          by (simp add: calcDist_loop.simps [of fp p1 p2 d i s] vec_at_error)
      next
        case b: (Inr b)
        from True a b "1.prems"
        have "calcDist_loop fp p1 p2 d (i + 1)
                (fadd fp s (dmul fp (dsub fp a b) (dsub fp a b))) = Inl e"
          by (simp add: calcDist_loop.simps [of fp p1 p2 d i s] Let_def)
        with "1.IH" [OF True a b refl] show ?thesis by simp
      qed
    qed
  qed
qed

lemma dsub_swap: "dsub fp y x = - dsub fp x y"
proof -
  have "sgn (y - x) = - sgn (x - y)" by (metis minus_diff_eq sgn_minus)
  moreover have "\<bar>y - x\<bar> = \<bar>x - y\<bar>" by (rule abs_minus_commute)
  ultimately show ?thesis by (simp add: dsub_def)
qed

lemma dmul_minus_minus: "dmul fp (- x) (- x) = dmul fp x x"
  by (simp add: dmul_def)

lemma squared_difference_swap:
  "dmul fp (dsub fp y x) (dsub fp y x) = dmul fp (dsub fp x y) (dsub fp x y)"
  by (simp only: dsub_swap [of fp y x] dmul_minus_minus)

lemma calcDist_loop_sym: "calcDist_loop fp p1 p2 d i s = calcDist_loop fp p2 p1 d i s"
proof (induction fp p1 p2 d i s rule: calcDist_loop.induct)
  case (1 fp p1 p2 d i s)
  show ?case
  proof (cases "i < d")
    case False
    then show ?thesis
      by (simp add: calcDist_loop.simps [of fp p1 p2 d i s] calcDist_loop.simps [of fp p2 p1 d i s])
  next
    case True
    show ?thesis
    proof (cases "vec_at p1 i")
      case e1: (Inl e1)
      then have "e1 = OutOfBounds" by (rule vec_at_error)
      with e1 True show ?thesis
        by (cases "vec_at p2 i")
           (auto simp: calcDist_loop.simps [of fp p1 p2 d i s]
                 calcDist_loop.simps [of fp p2 p1 d i s] dest: vec_at_error)
    next
      case a: (Inr a)
      show ?thesis
      proof (cases "vec_at p2 i")
        case (Inl e2)
        with True a show ?thesis
          by (simp add: calcDist_loop.simps [of fp p1 p2 d i s]
                calcDist_loop.simps [of fp p2 p1 d i s])
      next
        case b: (Inr b)
        note sq = squared_difference_swap [of fp b a]
        from "1.IH" [OF True a b refl] True a b sq show ?thesis
          by (simp add: calcDist_loop.simps [of fp p1 p2 d i s]
                calcDist_loop.simps [of fp p2 p1 d i s] Let_def)
      qed
    qed
  qed
qed

lemma calcDist_loop_returns:
  "0 \<le> i \<Longrightarrow> d \<le> int (length p1) \<Longrightarrow> d \<le> int (length p2) \<Longrightarrow>
   \<exists>x. calcDist_loop fp p1 p2 d i s = Inr x"
proof (induction fp p1 p2 d i s rule: calcDist_loop.induct)
  case (1 fp p1 p2 d i s)
  show ?case
  proof (cases "i < d")
    case False
    then show ?thesis by (simp add: calcDist_loop.simps [of fp p1 p2 d i s])
  next
    case True
    with "1.prems" have a: "vec_at p1 i = Inr (p1 ! nat i)" and b: "vec_at p2 i = Inr (p2 ! nat i)"
      by (simp_all add: vec_at_def)
    from "1.prems"(1) have i1: "0 \<le> i + 1" by simp
    from "1.IH" [OF True a b refl i1 "1.prems"(2,3)] True a b show ?thesis
      by (simp add: calcDist_loop.simps [of fp p1 p2 d i s] Let_def)
  qed
qed

lemma calcDistEuclidean_in_bounds:
  assumes "d \<le> int (length p1)" "d \<le> int (length p2)"
  shows "calcDistEuclidean fp p1 p2 d = Inr (distance fp p1 p2 d)"
proof -
  from calcDist_loop_returns [OF _ assms, of 0 fp 0]
  obtain x where "calcDist_loop fp p1 p2 d 0 0 = Inr x" by auto
  then show ?thesis by (simp add: distance_def calcDistEuclidean_def)
qed

lemma calcDistEuclidean_error: "calcDistEuclidean fp p1 p2 d = Inl e \<Longrightarrow> e = OutOfBounds"
  by (auto simp: calcDistEuclidean_def split: sum.splits dest: calcDist_loop_error)

text \<open>
  Claim C6 (symmetry of the distance). For all vectors \<open>a\<close> and \<open>b\<close>, every \<open>d\<close> and every
  arithmetic \<open>fp\<close>, calcDistEuclidean gives the same result for \<open>(a, b, d)\<close> and for
  \<open>(b, a, d)\<close>: the same double when both vectors have at least \<open>d\<close> components, and the same
  out-of-range read otherwise. Swapping the vectors flips the sign of each difference and
  leaves its magnitude (lemma \<open>dsub_swap\<close>), and the product of a double with itself does
  not see the sign (lemma \<open>dmul_minus_minus\<close>).
\<close>

theorem calcDistEuclidean_symmetric: "calcDistEuclidean fp a b d = calcDistEuclidean fp b a d"
  by (simp add: calcDistEuclidean_def calcDist_loop_sym [of fp a b])


section \<open>The heap algorithms keep the heap\<close>

lemma length_push_heap_loop: "length (push_heap_loop h i t v) = length h"
  by (induction h i t v rule: push_heap_loop.induct)
     (subst push_heap_loop.simps, simp add: Let_def)

lemma length_adjust_down: "length (fst (adjust_down h len i)) = length h"
  by (induction h len i rule: adjust_down.induct)
     (subst adjust_down.simps, simp add: Let_def)

lemma push_heap_loop_step:
  "t < hole \<Longrightarrow> cmp (h ! ((hole - 1) div 2)) v \<Longrightarrow>
   push_heap_loop h hole t v =
   push_heap_loop (h[hole := h ! ((hole - 1) div 2)]) ((hole - 1) div 2) t v"
  by (subst push_heap_loop.simps) (simp add: Let_def)

lemma push_heap_loop_stop:
  "\<not> (t < hole \<and> cmp (h ! ((hole - 1) div 2)) v) \<Longrightarrow> push_heap_loop h hole t v = h[hole := v]"
  by (subst push_heap_loop.simps) (auto simp: Let_def)

lemma mset_move_hole:
  assumes "p < length h" "hole < length h" "p \<noteq> hole"
  shows "mset (h[hole := h ! p, p := v]) = mset (h[hole := v])"
proof -
  let ?g = "h[hole := v]"
  have "?g[hole := ?g ! p, p := ?g ! hole] = h[hole := h ! p, p := v]"
    using assms by simp
  moreover have "mset (?g[hole := ?g ! p, p := ?g ! hole]) = mset ?g"
    using assms by (intro mset_swap) simp_all
  ultimately show ?thesis by simp
qed

lemma mset_push_heap_loop:
  "hole < length h \<Longrightarrow> mset (push_heap_loop h hole t v) = mset (h[hole := v])"
proof (induction h hole t v rule: push_heap_loop.induct)
  case (1 h hole t v)
  let ?p = "(hole - 1) div 2"
  show ?case
  proof (cases "hole > t \<and> cmp (h ! ?p) v")
    case True
    then have hp: "?p < hole" by arith
    have "mset (push_heap_loop h hole t v) = mset (push_heap_loop (h[hole := h ! ?p]) ?p t v)"
      using True by (simp add: push_heap_loop_step)
    also have "\<dots> = mset (h[hole := h ! ?p, ?p := v])"
      using "1.IH" [OF refl True] hp "1.prems" by simp
    also have "\<dots> = mset (h[hole := v])"
      using hp "1.prems" by (intro mset_move_hole) simp_all
    finally show ?thesis .
  next
    case False
    then show ?thesis by (simp add: push_heap_loop_stop)
  qed
qed

lemma hole_move_up:
  assumes inv: "hole_inv h hole" and bel: "below h hole v"
    and hole: "0 < hole" "hole < length h" and lt: "fst (h ! ((hole - 1) div 2)) < fst v"
  shows "hole_inv (h[hole := h ! ((hole - 1) div 2)]) ((hole - 1) div 2)"
    and "below (h[hole := h ! ((hole - 1) div 2)]) ((hole - 1) div 2) v"
proof -
  let ?p = "(hole - 1) div 2"
  let ?h = "h[hole := h ! ?p]"
  have hp: "?p < hole" using hole by arith
  have at: "\<And>i. 0 < i \<Longrightarrow> i < length h \<Longrightarrow> i \<noteq> hole \<Longrightarrow>
      (if (i - 1) div 2 = hole then fst (h ! i) \<le> fst (h ! ?p)
       else fst (h ! i) \<le> fst (h ! ((i - 1) div 2)))"
    using inv hole unfolding hole_inv_def by auto
  show "below ?h ?p v"
    unfolding below_def
  proof (intro allI impI, elim conjE)
    fix i assume i: "0 < i" "i < length ?h" "(i - 1) div 2 = ?p"
    show "fst (?h ! i) \<le> fst v"
    proof (cases "i = hole")
      case True
      with hole lt show ?thesis by simp
    next
      case False
      with at [of i] i hp have "fst (h ! i) \<le> fst (h ! ?p)" by auto
      with False lt show ?thesis by simp
    qed
  qed
  show "hole_inv ?h ?p"
    unfolding hole_inv_def
  proof (intro allI impI, elim conjE)
    fix i assume i: "0 < i" "i < length ?h" "i \<noteq> ?p"
    let ?q = "(i - 1) div 2"
    have qi: "?q < i" using i by arith
    show "if ?q = ?p then 0 < ?p \<longrightarrow> fst (?h ! i) \<le> fst (?h ! ((?p - 1) div 2))
          else fst (?h ! i) \<le> fst (?h ! ?q)"
    proof (cases "?q = ?p")
      case True
      have "fst (?h ! i) \<le> fst (?h ! ((?p - 1) div 2))" if p0: "0 < ?p"
      proof -
        have pp: "(?p - 1) div 2 < ?p" using p0 by arith
        have a: "fst (h ! ?p) \<le> fst (h ! ((?p - 1) div 2))"
          using at [of ?p] p0 hp hole pp by auto
        have b: "fst (?h ! i) \<le> fst (h ! ?p)"
        proof (cases "i = hole")
          case True with hole show ?thesis by simp
        next
          case False
          with at [of i] i True hp show ?thesis by auto
        qed
        have "?h ! ((?p - 1) div 2) = h ! ((?p - 1) div 2)"
          using pp hp by simp
        with a b show ?thesis by simp
      qed
      with True show ?thesis by simp
    next
      case False
      then have ih: "i \<noteq> hole" by auto
      have "fst (?h ! i) \<le> fst (?h ! ?q)"
      proof (cases "?q = hole")
        case True
        with at [of i] i ih have "fst (h ! i) \<le> fst (h ! ?p)" by auto
        with True ih hole show ?thesis by simp
      next
        case qh: False
        with at [of i] i ih have "fst (h ! i) \<le> fst (h ! ?q)" by auto
        with qh ih show ?thesis by simp
      qed
      with False show ?thesis by simp
    qed
  qed
qed

lemma hole_fill:
  assumes inv: "hole_inv h hole" and bel: "below h hole v" and hole: "hole < length h"
    and le: "0 < hole \<Longrightarrow> fst v \<le> fst (h ! ((hole - 1) div 2))"
  shows "heap_inv (h[hole := v])"
  unfolding heap_inv_def
proof (intro allI impI, elim conjE)
  fix i assume i: "0 < i" "i < length (h[hole := v])"
  let ?q = "(i - 1) div 2"
  have qi: "?q < i" using i by arith
  show "fst (h[hole := v] ! i) \<le> fst (h[hole := v] ! ?q)"
  proof (cases "i = hole")
    case True
    with le i qi hole show ?thesis by simp
  next
    case False
    show ?thesis
    proof (cases "?q = hole")
      case True
      with bel i False have "fst (h ! i) \<le> fst v" unfolding below_def by auto
      with True False hole show ?thesis by simp
    next
      case qh: False
      with inv i False have "fst (h ! i) \<le> fst (h ! ?q)" unfolding hole_inv_def by auto
      with qh False show ?thesis by simp
    qed
  qed
qed

lemma heap_inv_push_heap_loop:
  "hole < length h \<Longrightarrow> hole_inv h hole \<Longrightarrow> below h hole v \<Longrightarrow>
   heap_inv (push_heap_loop h hole 0 v)"
proof (induction h hole "0::nat" v rule: push_heap_loop.induct)
  case (1 h hole v)
  let ?p = "(hole - 1) div 2"
  show ?case
  proof (cases "hole > 0 \<and> cmp (h ! ?p) v")
    case True
    then have hp: "?p < hole" and lt: "fst (h ! ?p) < fst v" by (auto simp: cmp_def)
    have eq: "push_heap_loop h hole 0 v = push_heap_loop (h[hole := h ! ?p]) ?p 0 v"
      using True by (simp add: push_heap_loop_step)
    have "heap_inv (push_heap_loop (h[hole := h ! ?p]) ?p 0 v)"
      using "1.hyps" [OF refl True] hp "1.prems" True lt
        hole_move_up [OF "1.prems"(2) "1.prems"(3) _ "1.prems"(1) lt]
      by simp
    with eq show ?thesis by simp
  next
    case False
    then have eq: "push_heap_loop h hole 0 v = h[hole := v]"
      by (simp add: push_heap_loop_stop)
    from False have "0 < hole \<Longrightarrow> fst v \<le> fst (h ! ?p)" by (auto simp: cmp_def)
    with hole_fill [OF "1.prems"(2) "1.prems"(3) "1.prems"(1)] eq show ?thesis by simp
  qed
qed


lemma adjust_down_step:
  "hole < (len - 1) div 2 \<Longrightarrow>
   adjust_down h len hole =
     (let c = (if cmp (h ! (2 * (hole + 1))) (h ! (2 * (hole + 1) - 1))
               then 2 * (hole + 1) - 1 else 2 * (hole + 1))
      in adjust_down (h[hole := h ! c]) len c)"
  by (subst adjust_down.simps) (simp add: Let_def)

lemma adjust_down_stop: "\<not> hole < (len - 1) div 2 \<Longrightarrow> adjust_down h len hole = (h, hole)"
  by (subst adjust_down.simps) simp

lemma hole_move_down:
  assumes inv: "hole_inv h hole" and c: "0 < c" "c < length h" "(c - 1) div 2 = hole"
    and big: "\<And>i. 0 < i \<Longrightarrow> i < length h \<Longrightarrow> (i - 1) div 2 = hole \<Longrightarrow> fst (h ! i) \<le> fst (h ! c)"
  shows "hole_inv (h[hole := h ! c]) c"
  unfolding hole_inv_def
proof (intro allI impI, elim conjE)
  let ?h = "h[hole := h ! c]"
  have hc: "hole < c" using c by arith
  have at: "\<And>i. 0 < i \<Longrightarrow> i < length h \<Longrightarrow> i \<noteq> hole \<Longrightarrow>
      (if (i - 1) div 2 = hole then 0 < hole \<longrightarrow> fst (h ! i) \<le> fst (h ! ((hole - 1) div 2))
       else fst (h ! i) \<le> fst (h ! ((i - 1) div 2)))"
    using inv unfolding hole_inv_def by blast
  fix i assume i: "0 < i" "i < length ?h" "i \<noteq> c"
  let ?q = "(i - 1) div 2"
  have qi: "?q < i" using i by arith
  show "if ?q = c then 0 < c \<longrightarrow> fst (?h ! i) \<le> fst (?h ! ((c - 1) div 2))
        else fst (?h ! i) \<le> fst (?h ! ?q)"
  proof (cases "?q = c")
    case True
    then have ih: "i \<noteq> hole" using hc qi by arith
    from at [of i] i ih True hc have "fst (h ! i) \<le> fst (h ! c)" by simp
    with True ih c hc show ?thesis by simp
  next
    case False
    have "fst (?h ! i) \<le> fst (?h ! ?q)"
    proof (cases "i = hole")
      case True
      then have h0: "0 < hole" using i by simp
      have qh: "?q \<noteq> hole" using qi True by simp
      from at [of c] c hc h0 have "fst (h ! c) \<le> fst (h ! ((hole - 1) div 2))" by simp
      with qh True c hc show ?thesis by simp
    next
      case ih: False
      show ?thesis
      proof (cases "?q = hole")
        case True
        with big [of i] i have "fst (h ! i) \<le> fst (h ! c)" by simp
        with True ih c hc show ?thesis by simp
      next
        case qh: False
        with at [of i] i ih have "fst (h ! i) \<le> fst (h ! ?q)" by simp
        with qh ih show ?thesis by simp
      qed
    qed
    with False show ?thesis by simp
  qed
qed

lemma adjust_down_props:
  assumes "len = length h" "hole < length h" "adjust_down h len hole = (h1, hole1)"
  shows "(hole_inv h hole \<longrightarrow> hole_inv h1 hole1) \<and> hole1 < length h \<and>
         \<not> hole1 < (len - 1) div 2 \<and> length h1 = length h \<and>
         (\<forall>x. mset (h1[hole1 := x]) = mset (h[hole := x]))"
  using assms
proof (induction h len hole arbitrary: h1 hole1 rule: adjust_down.induct)
  case (1 h len hole)
  show ?case
  proof (cases "hole < (len - 1) div 2")
    case False
    with "1.prems" show ?thesis by (simp add: adjust_down_stop)
  next
    case True
    let ?sc = "2 * (hole + 1)"
    let ?c = "if cmp (h ! ?sc) (h ! (?sc - 1)) then ?sc - 1 else ?sc"
    let ?h = "h[hole := h ! ?c]"
    have sc: "?sc < length h" using True "1.prems"(1) by arith
    have c: "0 < ?c" "?c < length h" "(?c - 1) div 2 = hole" "hole < ?c"
      using sc by auto
    have step: "adjust_down h len hole = adjust_down ?h len ?c"
      using True by (simp add: adjust_down_step)
    have big: "fst (h ! i) \<le> fst (h ! ?c)"
      if "0 < i" "i < length h" "(i - 1) div 2 = hole" for i
    proof -
      from that have "i = ?sc - 1 \<or> i = ?sc" by arith
      then show ?thesis by (auto simp: cmp_def)
    qed
    have inv': "hole_inv ?h ?c" if "hole_inv h hole"
      using that c(1,2,3) big by (rule hole_move_down)
    have len': "len = length ?h" using "1.prems"(1) by simp
    have c': "?c < length ?h" using c(2) by simp
    have adj: "adjust_down ?h len ?c = (h1, hole1)" using step "1.prems"(3) by simp
    note IH = "1.IH" [OF True refl refl len' c' adj]
    have sw: "mset (h[hole := h ! ?c, ?c := x]) = mset (h[hole := x])" for x
      using c "1.prems"(2) by (intro mset_move_hole) simp_all
    from IH inv' have "hole_inv h hole \<longrightarrow> hole_inv h1 hole1" by blast
    moreover from IH have "hole1 < length h" "\<not> hole1 < (len - 1) div 2"
      "length h1 = length h" by simp_all
    moreover from IH sw have "\<forall>x. mset (h1[hole1 := x]) = mset (h[hole := x])"
      by (metis (no_types, lifting))
    ultimately show ?thesis by blast
  qed
qed

lemma hole_inv_leaf_below:
  "\<not> hole < (length h - 1) div 2 \<Longrightarrow> \<not> (even (length h) \<and> hole = (length h - 2) div 2) \<Longrightarrow>
   below h hole v"
  unfolding below_def by (auto simp: even_iff_mod_2_eq_zero) arith+


lemma adjust_heap_props:
  assumes ne: "h \<noteq> []"
  shows "hole_inv h 0 \<Longrightarrow> heap_inv (adjust_heap h 0 (length h) v)"
    and "mset (adjust_heap h 0 (length h) v) = mset (h[0 := v])"
proof -
  let ?n = "length h"
  obtain h1 hole1 where ad: "adjust_down h ?n 0 = (h1, hole1)" by (cases "adjust_down h ?n 0")
  from ne have n0: "0 < ?n" by simp
  note P = adjust_down_props [OF refl n0 ad]
  from P have p: "hole_inv h 0 \<longrightarrow> hole_inv h1 hole1" "hole1 < ?n" "\<not> hole1 < (?n - 1) div 2"
    "length h1 = ?n" by blast+
  from P have ms: "\<forall>x. mset (h1[hole1 := x]) = mset (h[0 := x])" by blast
  have "(hole_inv h 0 \<longrightarrow> heap_inv (adjust_heap h 0 (length h) v)) \<and>
        mset (adjust_heap h 0 (length h) v) = mset (h[0 := v])"
  proof (cases "even ?n \<and> 2 \<le> ?n \<and> hole1 = (?n - 2) div 2")
    case True
    let ?c = "2 * (hole1 + 1) - 1"
    let ?h2 = "h1[hole1 := h1 ! ?c]"
    have eq: "adjust_heap h 0 ?n v = push_heap_loop ?h2 ?c 0 v"
      using True ad by (simp add: adjust_heap_def)
    have c: "0 < ?c" "?c < length h1" "(?c - 1) div 2 = hole1" "?c = ?n - 1"
      using True p(4) by (auto elim!: evenE)
    have only: "i = ?c" if "0 < i" "i < length h1" "(i - 1) div 2 = hole1" for i
      using that True p(4) by (auto elim!: evenE) arith
    have leaf: "below ?h2 ?c v"
      unfolding below_def using c(4) p(4) by auto
    have "heap_inv (adjust_heap h 0 (length h) v)" if "hole_inv h 0"
    proof -
      from that p(1) have "hole_inv h1 hole1" by simp
      then have inv2: "hole_inv ?h2 ?c"
        using c(1,2,3) by (rule hole_move_down) (use only in auto)
      show ?thesis
        using heap_inv_push_heap_loop [OF _ inv2 leaf] c(2) eq by simp
    qed
    moreover have "mset (push_heap_loop ?h2 ?c 0 v) = mset (?h2[?c := v])"
      using c(2) by (intro mset_push_heap_loop) simp
    moreover have "mset (?h2[?c := v]) = mset (h1[hole1 := v])"
      using c p(2,4) by (intro mset_move_hole) auto
    ultimately show ?thesis using eq ms by simp
  next
    case False
    have eq: "adjust_heap h 0 ?n v = push_heap_loop h1 hole1 0 v"
      using False ad by (auto simp: adjust_heap_def)
    have "\<not> (even (length h1) \<and> hole1 = (length h1 - 2) div 2)"
    proof
      assume a: "even (length h1) \<and> hole1 = (length h1 - 2) div 2"
      with p(4) have "even ?n" by simp
      then have "?n \<noteq> 1" by auto
      with n0 have "2 \<le> ?n" by arith
      with a False p(4) show False by simp
    qed
    with p(3,4) have leaf: "below h1 hole1 v"
      by (intro hole_inv_leaf_below) simp_all
    have "heap_inv (adjust_heap h 0 (length h) v)" if "hole_inv h 0"
    proof -
      from that p(1) have inv1: "hole_inv h1 hole1" by simp
      show ?thesis
        using heap_inv_push_heap_loop [OF _ inv1 leaf] p(2,4) eq by simp
    qed
    moreover have "mset (adjust_heap h 0 (length h) v) = mset (h[0 := v])"
      using mset_push_heap_loop [of hole1 h1 0 v] p(2,4) eq ms by simp
    ultimately show ?thesis by simp
  qed
  then show "hole_inv h 0 \<Longrightarrow> heap_inv (adjust_heap h 0 (length h) v)"
    and "mset (adjust_heap h 0 (length h) v) = mset (h[0 := v])" by simp_all
qed

lemma push_heap_loop_append:
  "hole < length xs \<Longrightarrow> push_heap_loop (xs @ ys) hole t v = push_heap_loop xs hole t v @ ys"
proof (induction xs hole t v rule: push_heap_loop.induct)
  case (1 h hole t v)
  let ?p = "(hole - 1) div 2"
  have p: "?p < length h" using "1.prems" by arith
  show ?case
  proof (cases "t < hole \<and> cmp (h ! ?p) v")
    case True
    have "push_heap_loop (h @ ys) hole t v =
          push_heap_loop ((h @ ys)[hole := (h @ ys) ! ?p]) ?p t v"
      using True p by (intro push_heap_loop_step) (simp_all add: nth_append)
    also have "(h @ ys)[hole := (h @ ys) ! ?p] = h[hole := h ! ?p] @ ys"
      using p "1.prems" by (simp add: nth_append list_update_append)
    also have "push_heap_loop (h[hole := h ! ?p] @ ys) ?p t v =
               push_heap_loop (h[hole := h ! ?p]) ?p t v @ ys"
      using "1.IH" [OF refl True] p by simp
    finally show ?thesis using True by (simp add: push_heap_loop_step)
  next
    case False
    then have "\<not> (t < hole \<and> cmp ((h @ ys) ! ?p) v)" using p by (simp add: nth_append)
    then have "push_heap_loop (h @ ys) hole t v = (h @ ys)[hole := v]"
      by (rule push_heap_loop_stop)
    with False "1.prems" show ?thesis by (simp add: push_heap_loop_stop list_update_append)
  qed
qed

lemma adjust_down_bound: "hole < len \<Longrightarrow> snd (adjust_down h len hole) < len"
proof (induction h len hole rule: adjust_down.induct)
  case (1 h len hole)
  show ?case
  proof (cases "hole < (len - 1) div 2")
    case True
    let ?sc = "2 * (hole + 1)"
    let ?c = "if cmp (h ! ?sc) (h ! (?sc - 1)) then ?sc - 1 else ?sc"
    have c: "?c < len" using True by auto
    have step: "adjust_down h len hole = adjust_down (h[hole := h ! ?c]) len ?c"
      using True by (simp add: adjust_down_step)
    show ?thesis unfolding step by (rule "1.IH" [OF True refl refl c])
  next
    case False
    with "1.prems" show ?thesis by (simp add: adjust_down_stop)
  qed
qed

lemma adjust_down_append:
  "len = length xs \<Longrightarrow>
   adjust_down (xs @ ys) len hole =
     (fst (adjust_down xs len hole) @ ys, snd (adjust_down xs len hole))"
proof (induction xs len hole rule: adjust_down.induct)
  case (1 h len hole)
  show ?case
  proof (cases "hole < (len - 1) div 2")
    case True
    let ?sc = "2 * (hole + 1)"
    let ?c = "if cmp (h ! ?sc) (h ! (?sc - 1)) then ?sc - 1 else ?sc"
    have sc: "?sc < length h" "?sc - 1 < length h" "hole < length h" "?c < length h"
      using True "1.prems" by auto
    have c_eq: "(if cmp ((h @ ys) ! ?sc) ((h @ ys) ! (?sc - 1)) then ?sc - 1 else ?sc) = ?c"
      using sc by (simp add: nth_append)
    have step: "adjust_down h len hole = adjust_down (h[hole := h ! ?c]) len ?c"
      using True by (simp add: adjust_down_step)
    have "adjust_down (h @ ys) len hole = adjust_down ((h @ ys)[hole := (h @ ys) ! ?c]) len ?c"
      using True by (subst adjust_down_step) (simp_all only: c_eq Let_def)
    also have "(h @ ys)[hole := (h @ ys) ! ?c] = h[hole := h ! ?c] @ ys"
      using sc by (simp add: nth_append list_update_append)
    also have "adjust_down (h[hole := h ! ?c] @ ys) len ?c =
      (fst (adjust_down (h[hole := h ! ?c]) len ?c) @ ys, snd (adjust_down (h[hole := h ! ?c]) len ?c))"
      by (rule "1.IH" [OF True refl refl]) (use "1.prems" in simp)
    finally show ?thesis unfolding step .
  next
    case False
    then show ?thesis by (simp add: adjust_down_stop)
  qed
qed

lemma adjust_heap_append:
  assumes "xs \<noteq> []"
  shows "adjust_heap (xs @ ys) 0 (length xs) v = adjust_heap xs 0 (length xs) v @ ys"
proof -
  let ?n = "length xs"
  obtain h1 hole1 where ad: "adjust_down xs ?n 0 = (h1, hole1)" by (cases "adjust_down xs ?n 0")
  have ad': "adjust_down (xs @ ys) ?n 0 = (h1 @ ys, hole1)"
    using adjust_down_append [OF refl, of xs ys 0] ad by simp
  have l1: "length h1 = ?n" using length_adjust_down [of xs ?n 0] ad by simp
  have b1: "hole1 < ?n" using adjust_down_bound [of 0 ?n xs] ad assms by simp
  show ?thesis
  proof (cases "even ?n \<and> 2 \<le> ?n \<and> hole1 = (?n - 2) div 2")
    case True
    let ?c = "2 * (hole1 + 1) - 1"
    have c: "?c < length h1" using True l1 by (auto elim!: evenE)
    have "(h1 @ ys)[hole1 := (h1 @ ys) ! ?c] = h1[hole1 := h1 ! ?c] @ ys"
      using c b1 l1 by (simp add: nth_append list_update_append)
    moreover have "push_heap_loop (h1[hole1 := h1 ! ?c] @ ys) ?c 0 v =
          push_heap_loop (h1[hole1 := h1 ! ?c]) ?c 0 v @ ys"
      using c by (intro push_heap_loop_append) simp
    ultimately show ?thesis using True ad ad' by (simp add: adjust_heap_def)
  next
    case False
    have "push_heap_loop (h1 @ ys) hole1 0 v = push_heap_loop h1 hole1 0 v @ ys"
      using b1 l1 by (intro push_heap_loop_append) simp
    then show ?thesis using False ad ad' by (auto simp: adjust_heap_def)
  qed
qed

lemma pq_pop_single: "pq_pop [v] = []"
  by (simp add: pq_pop_def pop_heap_def)

lemma pq_pop_snoc:
  assumes "xs \<noteq> []"
  shows "pq_pop (xs @ [v]) = adjust_heap xs 0 (length xs) v"
proof -
  have "pop_heap (xs @ [v]) = adjust_heap (xs @ [xs ! 0]) 0 (length xs) v"
    using assms by (simp add: pop_heap_def Let_def nth_append)
  also have "\<dots> = adjust_heap xs 0 (length xs) v @ [xs ! 0]"
    using assms by (rule adjust_heap_append)
  finally show ?thesis by (simp add: pq_pop_def)
qed

lemma heap_inv_hole0:
  assumes "heap_inv (xs @ [v])"
  shows "hole_inv xs 0"
  unfolding hole_inv_def
proof (intro allI impI, elim conjE)
  fix i assume i: "0 < i" "i < length xs" "i \<noteq> 0"
  then have "(i - 1) div 2 < length xs" by arith
  with assms i have "fst (xs ! i) \<le> fst (xs ! ((i - 1) div 2))"
    unfolding heap_inv_def by (auto simp: nth_append dest!: spec [of _ i])
  then show "if (i - 1) div 2 = 0 then 0 < (0::nat) \<longrightarrow> fst (xs ! i) \<le> fst (xs ! ((0 - 1) div 2))
        else fst (xs ! i) \<le> fst (xs ! ((i - 1) div 2))"
    by simp
qed

lemma length_pq_pop: "length (pq_pop h) = length h - 1"
  using length_adjust_down [of "h[length h - 1 := h ! 0]" "length h - 1" 0]
  by (auto simp: pq_pop_def pop_heap_def adjust_heap_def Let_def length_push_heap_loop
           split: prod.splits)

lemma mset_pq_pop:
  assumes "h \<noteq> []"
  shows "mset (pq_pop h) = mset h - {#h ! 0#}"
proof -
  obtain xs v where h: "h = xs @ [v]" using assms by (metis rev_exhaust)
  show ?thesis
  proof (cases "xs = []")
    case True
    with h show ?thesis by (simp add: pq_pop_single)
  next
    case False
    then have "mset (pq_pop h) = mset (xs[0 := v])"
      using h by (simp add: pq_pop_snoc adjust_heap_props(2))
    also have "\<dots> = add_mset v (mset xs - {#xs ! 0#})"
      using False by (simp add: mset_update)
    also have "\<dots> = mset h - {#h ! 0#}"
      using False h by (simp add: nth_append)
    finally show ?thesis .
  qed
qed

lemma heap_inv_pq_pop:
  assumes "heap_inv h"
  shows "heap_inv (pq_pop h)"
proof (cases "h = []")
  case True
  then show ?thesis by (simp add: pq_pop_def pop_heap_def heap_inv_def)
next
  case False
  then obtain xs v where h: "h = xs @ [v]" by (metis rev_exhaust)
  show ?thesis
  proof (cases "xs = []")
    case True
    with h show ?thesis by (simp add: pq_pop_single heap_inv_def)
  next
    case False
    from assms h have "hole_inv xs 0" by (simp add: heap_inv_hole0)
    with False h show ?thesis by (simp add: pq_pop_snoc adjust_heap_props(1))
  qed
qed

lemma pq_push_eq: "pq_push h x = push_heap_loop (h @ [x]) (length h) 0 x"
  by (simp add: pq_push_def push_heap_def)

lemma length_pq_push: "length (pq_push h x) = Suc (length h)"
  by (simp add: pq_push_eq length_push_heap_loop)

lemma mset_pq_push: "mset (pq_push h x) = add_mset x (mset h)"
  by (simp add: pq_push_eq mset_push_heap_loop)

lemma heap_inv_pq_push:
  assumes "heap_inv h"
  shows "heap_inv (pq_push h x)"
proof -
  have "hole_inv (h @ [x]) (length h)"
    unfolding hole_inv_def
  proof (intro allI impI, elim conjE)
    fix i assume i: "0 < i" "i < length (h @ [x])" "i \<noteq> length h"
    then have il: "i < length h" and q: "(i - 1) div 2 < i" by auto
    with assms i have "fst (h ! i) \<le> fst (h ! ((i - 1) div 2))"
      unfolding heap_inv_def by blast
    with il q show "if (i - 1) div 2 = length h
          then 0 < length h \<longrightarrow> fst ((h @ [x]) ! i) \<le> fst ((h @ [x]) ! ((length h - 1) div 2))
          else fst ((h @ [x]) ! i) \<le> fst ((h @ [x]) ! ((i - 1) div 2))"
      by (simp add: nth_append)
  qed
  moreover have "below (h @ [x]) (length h) x"
    unfolding below_def by auto
  ultimately show ?thesis
    by (simp add: pq_push_eq heap_inv_push_heap_loop)
qed

lemma heap_top_max: "heap_inv h \<Longrightarrow> i < length h \<Longrightarrow> fst (h ! i) \<le> fst (h ! 0)"
proof (induction i rule: less_induct)
  case (less i)
  show ?case
  proof (cases "i = 0")
    case True
    then show ?thesis by simp
  next
    case False
    then have q: "(i - 1) div 2 < i" by arith
    from less.prems False have "fst (h ! i) \<le> fst (h ! ((i - 1) div 2))"
      unfolding heap_inv_def by simp
    also have "\<dots> \<le> fst (h ! 0)"
      using less.IH [OF q less.prems(1)] q less.prems(2) by simp
    finally show ?thesis .
  qed
qed

lemma pq_top_nonempty: "heap \<noteq> [] \<Longrightarrow> pq_top heap = Inr (heap ! 0)"
  by (simp add: pq_top_def vec_at_def)

lemma pq_pop_mset_split:
  assumes "h \<noteq> []"
  shows "mset h = add_mset (h ! 0) (mset (pq_pop h))"
  using assms by (simp add: mset_pq_pop)

lemma pq_pop_set:
  assumes "h \<noteq> []"
  shows "set h = insert (h ! 0) (set (pq_pop h))"
  using pq_pop_mset_split [OF assms] by (metis set_mset_add_mset_insert set_mset_mset)

lemma pq_pop_distinct:
  assumes "h \<noteq> []" "distinct (map snd h)"
  shows "distinct (map snd (pq_pop h)) \<and> snd (h ! 0) \<notin> snd ` set (pq_pop h)"
proof -
  have "mset (map snd h) = mset (snd (h ! 0) # map snd (pq_pop h))"
    using pq_pop_mset_split [OF assms(1)] by (metis mset.simps(2) mset_map image_mset_add_mset)
  with assms(2) have "distinct (snd (h ! 0) # map snd (pq_pop h))"
    by (metis mset_eq_imp_distinct_iff)
  then show ?thesis by simp
qed

lemma pq_push_set: "set (pq_push h x) = insert x (set h)"
  using mset_pq_push [of h x] by (metis set_mset_add_mset_insert set_mset_mset)

lemma pq_push_distinct:
  "distinct (map snd (pq_push h x)) = (snd x \<notin> snd ` set h \<and> distinct (map snd h))"
proof -
  have "mset (map snd (pq_push h x)) = mset (snd x # map snd h)"
    by (simp add: mset_pq_push)
  then have "distinct (map snd (pq_push h x)) = distinct (snd x # map snd h)"
    by (rule mset_eq_imp_distinct_iff)
  then show ?thesis by simp
qed

lemma indices_full:
  assumes "distinct (map snd heap)" "\<forall>(x, j)\<in>set heap. 0 \<le> j \<and> j < i" "int (length heap) = i"
  shows "snd ` set heap = {0..<i}"
proof -
  have "card (snd ` set heap) = length heap"
    using assms(1) by (metis distinct_card length_map set_map)
  moreover have "snd ` set heap \<subseteq> {0..<i}" using assms(2) by auto
  moreover have "card {0..<i} = length heap" using assms(3) by simp
  ultimately show ?thesis by (intro card_subset_eq) simp_all
qed

lemma scan_inv_push:
  assumes inv: "scan_inv ds k i heap" and i: "0 \<le> i" and len: "int (length heap) < k"
  shows "scan_inv ds k (i + 1) (pq_push heap (ds ! nat i, i))"
proof -
  from inv have h: "heap_inv heap" "int (length heap) = min i k" "distinct (map snd heap)"
    and ran: "\<forall>(x, j)\<in>set heap. 0 \<le> j \<and> j < i \<and> x = ds ! nat j"
    unfolding scan_inv_def by simp_all
  from h(2) len have li: "int (length heap) = i" by simp
  have full: "snd ` set heap = {0..<i}"
    using h(3) ran li by (intro indices_full) auto
  let ?h = "pq_push heap (ds ! nat i, i)"
  have "heap_inv ?h" using h(1) by (rule heap_inv_pq_push)
  moreover have "int (length ?h) = min (i + 1) k" using li len by (simp add: length_pq_push)
  moreover have "distinct (map snd ?h)" using h(3) full by (simp add: pq_push_distinct)
  moreover have "\<forall>(x, j)\<in>set ?h. 0 \<le> j \<and> j < i + 1 \<and> x = ds ! nat j"
    using ran i by (auto simp: pq_push_set)
  moreover have "\<forall>(x, j)\<in>set ?h. \<forall>j'. 0 \<le> j' \<and> j' < i + 1 \<and> j' \<notin> snd ` set ?h \<longrightarrow> x \<le> ds ! nat j'"
    using full by (auto simp: pq_push_set)
  ultimately show ?thesis unfolding scan_inv_def by blast
qed

lemma scan_inv_skip:
  assumes inv: "scan_inv ds k i heap" and i: "0 \<le> i" and k: "0 < k"
    and len: "\<not> int (length heap) < k" and ge: "\<not> ds ! nat i < fst (heap ! 0)"
  shows "scan_inv ds k (i + 1) heap"
proof -
  from inv have h: "heap_inv heap" "int (length heap) = min i k" "distinct (map snd heap)"
    and ran: "\<forall>(x, j)\<in>set heap. 0 \<le> j \<and> j < i \<and> x = ds ! nat j"
    and opt: "\<forall>(x, j)\<in>set heap. \<forall>j'. 0 \<le> j' \<and> j' < i \<and> j' \<notin> snd ` set heap \<longrightarrow> x \<le> ds ! nat j'"
    unfolding scan_inv_def by simp_all
  have top: "fst y \<le> fst (heap ! 0)" if "y \<in> set heap" for y
    using that h(1) heap_top_max by (metis in_set_conv_nth)
  have "int (length heap) = min (i + 1) k" using h(2) len by simp
  moreover have "\<forall>(x, j)\<in>set heap. 0 \<le> j \<and> j < i + 1 \<and> x = ds ! nat j"
    using ran by auto
  moreover have "\<forall>(x, j)\<in>set heap. \<forall>j'. 0 \<le> j' \<and> j' < i + 1 \<and> j' \<notin> snd ` set heap \<longrightarrow> x \<le> ds ! nat j'"
  proof (intro ballI, clarify)
    fix x j j' assume xj: "(x, j) \<in> set heap" and j': "0 \<le> j'" "j' < i + 1" "j' \<notin> snd ` set heap"
    show "x \<le> ds ! nat j'"
    proof (cases "j' = i")
      case True
      from top [OF xj] ge True show ?thesis by simp
    next
      case False
      with j' have "j' < i" by simp
      with opt xj j' show ?thesis by blast
    qed
  qed
  ultimately show ?thesis using h(1,3) unfolding scan_inv_def by blast
qed

lemma scan_inv_replace:
  assumes inv: "scan_inv ds k i heap" and i: "0 \<le> i" and k: "0 < k"
    and len: "\<not> int (length heap) < k" and lt: "ds ! nat i < fst (heap ! 0)"
  shows "scan_inv ds k (i + 1) (pq_push (pq_pop heap) (ds ! nat i, i))"
proof -
  from inv have h: "heap_inv heap" "int (length heap) = min i k" "distinct (map snd heap)"
    and ran: "\<forall>(x, j)\<in>set heap. 0 \<le> j \<and> j < i \<and> x = ds ! nat j"
    and opt: "\<forall>(x, j)\<in>set heap. \<forall>j'. 0 \<le> j' \<and> j' < i \<and> j' \<notin> snd ` set heap \<longrightarrow> x \<le> ds ! nat j'"
    unfolding scan_inv_def by simp_all
  from len k have ne: "heap \<noteq> []" by auto
  from h(2) len have lk: "int (length heap) = k" "k \<le> i" by simp_all
  let ?top = "heap ! 0"
  let ?p = "pq_pop heap"
  let ?h = "pq_push ?p (ds ! nat i, i)"
  have top: "fst y \<le> fst ?top" if "y \<in> set heap" for y
    using that h(1) heap_top_max by (metis in_set_conv_nth)
  have sp: "set heap = insert ?top (set ?p)" using ne by (rule pq_pop_set)
  have dp: "distinct (map snd ?p)" "snd ?top \<notin> snd ` set ?p"
    using pq_pop_distinct [OF ne h(3)] by simp_all
  have topin: "?top \<in> set heap" using ne by simp
  have topd: "fst ?top = ds ! nat (snd ?top)" "0 \<le> snd ?top" "snd ?top < i"
    using ran topin by (auto simp: case_prod_beta)
  have inew: "i \<notin> snd ` set ?p" using ran sp by (auto simp: case_prod_beta)
  have sh: "set ?h = insert (ds ! nat i, i) (set ?p)" by (rule pq_push_set)
  have "heap_inv ?h" using h(1) by (intro heap_inv_pq_push heap_inv_pq_pop)
  moreover have "int (length ?h) = min (i + 1) k"
    using lk ne by (simp add: length_pq_push length_pq_pop)
  moreover have "distinct (map snd ?h)" using dp inew by (simp add: pq_push_distinct)
  moreover have "\<forall>(x, j)\<in>set ?h. 0 \<le> j \<and> j < i + 1 \<and> x = ds ! nat j"
    using ran i sp sh by (auto simp: case_prod_beta)
  moreover have "\<forall>(x, j)\<in>set ?h. \<forall>j'. 0 \<le> j' \<and> j' < i + 1 \<and> j' \<notin> snd ` set ?h \<longrightarrow> x \<le> ds ! nat j'"
  proof (intro ballI, clarify)
    fix x j j' assume xj: "(x, j) \<in> set ?h" and j': "0 \<le> j'" "j' < i + 1" "j' \<notin> snd ` set ?h"
    from j' sh have ji: "j' < i" and jp: "j' \<notin> snd ` set ?p" by (auto simp: less_le)
    have xt: "x \<le> fst ?top"
    proof (cases "(x, j) = (ds ! nat i, i)")
      case True with lt show ?thesis by simp
    next
      case False
      with xj sh sp have "(x, j) \<in> set heap" by auto
      from top [OF this] show ?thesis by simp
    qed
    show "x \<le> ds ! nat j'"
    proof (cases "j' = snd ?top")
      case True
      with xt topd show ?thesis by simp
    next
      case False
      with jp sp have nin: "j' \<notin> snd ` set heap" by auto
      show ?thesis
      proof (cases "(x, j) = (ds ! nat i, i)")
        case True
        from opt topin j'(1) ji nin have "fst ?top \<le> ds ! nat j'"
          by (auto simp: case_prod_beta)
        with True lt show ?thesis by simp
      next
        case False
        with xj sh sp have "(x, j) \<in> set heap" by auto
        with opt j'(1) ji nin show ?thesis by blast
      qed
    qed
  qed
  ultimately show ?thesis unfolding scan_inv_def by blast
qed

lemma scan_loop_inv_gen:
  assumes "0 < k"
    and "\<forall>j<length train. calcDistEuclidean fp test (train ! j) d = Inr (ds ! j)"
    and "0 \<le> i" "i \<le> int (length train)" "scan_inv ds k i heap" "Q i heap"
    and "\<And>i heap. 0 \<le> i \<Longrightarrow> scan_inv ds k i heap \<Longrightarrow> Q i heap \<Longrightarrow> int (length heap) < k \<Longrightarrow>
           Q (i + 1) (pq_push heap (ds ! nat i, i))"
    and "\<And>i heap. 0 \<le> i \<Longrightarrow> scan_inv ds k i heap \<Longrightarrow> Q i heap \<Longrightarrow> \<not> int (length heap) < k \<Longrightarrow>
           ds ! nat i < fst (heap ! 0) \<Longrightarrow> Q (i + 1) (pq_push (pq_pop heap) (ds ! nat i, i))"
    and "\<And>i heap. 0 \<le> i \<Longrightarrow> scan_inv ds k i heap \<Longrightarrow> Q i heap \<Longrightarrow> \<not> int (length heap) < k \<Longrightarrow>
           \<not> ds ! nat i < fst (heap ! 0) \<Longrightarrow> Q (i + 1) heap"
  shows "\<exists>heap'. scan_loop fp train test k d i heap = Inr heap' \<and>
           scan_inv ds k (int (length train)) heap' \<and> Q (int (length train)) heap'"
  using assms
proof (induction fp train test k d i heap rule: scan_loop.induct)
  case (1 fp train test k d i heap)
  note k = "1.prems"(1) and ds = "1.prems"(2) and i = "1.prems"(3,4) and inv = "1.prems"(5)
    and q = "1.prems"(6) and steps = "1.prems"(7,8,9)
  show ?case
  proof (cases "i < int (length train)")
    case False
    with i have ie: "i = int (length train)" by simp
    have "scan_loop fp train test k d i heap = Inr heap"
      using False by (simp add: scan_loop.simps [of fp train test k d i heap])
    with inv q ie show ?thesis by simp
  next
    case True
    with i have row: "vec_at train i = Inr (train ! nat i)" by (simp add: vec_at_def)
    from True i ds have dist: "calcDistEuclidean fp test (train ! nat i) d = Inr (ds ! nat i)"
      by simp
    from True have i1: "0 \<le> i + 1" "i + 1 \<le> int (length train)" using i by simp_all
    show ?thesis
    proof (cases "int (length heap) < k")
      case len: True
      have eq: "scan_loop fp train test k d i heap =
                scan_loop fp train test k d (i + 1) (pq_push heap (ds ! nat i, i))"
        using True row dist len by (simp add: scan_loop.simps [of fp train test k d i heap])
      from "1.IH"(1) [OF True row dist len k ds i1 scan_inv_push [OF inv i(1) len]
          steps(1) [OF i(1) inv q len] steps] eq
      show ?thesis by simp
    next
      case len: False
      with k have ne: "heap \<noteq> []" by auto
      then have top: "pq_top heap = Inr (heap ! 0)" by (rule pq_top_nonempty)
      show ?thesis
      proof (cases "ds ! nat i < fst (heap ! 0)")
        case lt: True
        have eq: "scan_loop fp train test k d i heap =
                  scan_loop fp train test k d (i + 1) (pq_push (pq_pop heap) (ds ! nat i, i))"
          using True row dist len top lt by (simp add: scan_loop.simps [of fp train test k d i heap])
        from "1.IH"(2) [OF True row dist len top lt k ds i1
            scan_inv_replace [OF inv i(1) k len lt] steps(2) [OF i(1) inv q len lt] steps] eq
        show ?thesis by simp
      next
        case lt: False
        have eq: "scan_loop fp train test k d i heap = scan_loop fp train test k d (i + 1) heap"
          using True row dist len top lt by (simp add: scan_loop.simps [of fp train test k d i heap])
        from "1.IH"(3) [OF True row dist len top lt k ds i1
            scan_inv_skip [OF inv i(1) k len lt] steps(3) [OF i(1) inv q len lt] steps] eq
        show ?thesis by simp
      qed
    qed
  qed
qed

lemma scan_loop_inv:
  assumes "0 < k"
    and "\<forall>j<length train. calcDistEuclidean fp test (train ! j) d = Inr (ds ! j)"
    and "0 \<le> i" "i \<le> int (length train)" "scan_inv ds k i heap"
  shows "\<exists>heap'. scan_loop fp train test k d i heap = Inr heap' \<and>
           scan_inv ds k (int (length train)) heap'"
  using scan_loop_inv_gen [where Q = "\<lambda>i heap. True" and fp = fp and ds = ds and k = k] assms
  by simp

lemma scan_inv_init: "scan_inv ds k 0 []" if "0 < k"
  using that by (simp add: scan_inv_def heap_inv_def)

lemma sorted_append_take:
  assumes "mset ds = mset A + mset B" "sorted A" "\<forall>a\<in>set A. \<forall>b\<in>set B. a \<le> b"
  shows "take (length A) (sort ds) = A"
proof -
  have "sorted (A @ sort B)" using assms(2,3) by (simp add: sorted_append)
  moreover have "mset (A @ sort B) = mset ds" using assms(1) by simp
  ultimately have "sort ds = A @ sort B" by (metis properties_for_sort)
  then show ?thesis by simp
qed

lemma scan_inv_sorted_prefix:
  assumes inv: "scan_inv ds k (int (length ds)) heap" and k: "0 < k" "k \<le> int (length ds)"
  shows "sort (map fst heap) = take (nat k) (sort ds)"
proof -
  let ?n = "length ds"
  from inv have h: "int (length heap) = min (int ?n) k" "distinct (map snd heap)"
    and ran: "\<forall>(x, j)\<in>set heap. 0 \<le> j \<and> j < int ?n \<and> x = ds ! nat j"
    and opt: "\<forall>(x, j)\<in>set heap. \<forall>j'. 0 \<le> j' \<and> j' < int ?n \<and> j' \<notin> snd ` set heap \<longrightarrow> x \<le> ds ! nat j'"
    unfolding scan_inv_def by simp_all
  let ?J = "map (nat \<circ> snd) heap"
  let ?R = "filter (\<lambda>j. j \<notin> set ?J) [0..<?n]"
  have dJ: "distinct ?J"
  proof -
    have "inj_on nat (set (map snd heap))"
    proof (rule inj_onI)
      fix a b assume "a \<in> set (map snd heap)" "b \<in> set (map snd heap)" "nat a = nat b"
      moreover from this ran have "0 \<le> a" "0 \<le> b" by (auto simp: case_prod_beta)
      ultimately show "a = b" by simp
    qed
    with h(2) have "distinct (map nat (map snd heap))"
      by (subst distinct_map) simp
    then show ?thesis by (simp only: map_map)
  qed
  have sJ: "set ?J \<subseteq> {0..<?n}" using ran by (auto simp: case_prod_beta)
  have fstJ: "map fst heap = map (\<lambda>j. ds ! j) ?J"
    using ran by (auto simp: case_prod_beta)
  have "mset [0..<?n] = mset ?J + mset ?R"
  proof -
    have "mset ?J = mset (filter (\<lambda>j. j \<in> set ?J) [0..<?n])"
    proof -
      have "set ?J = set (filter (\<lambda>j. j \<in> set ?J) [0..<?n])" using sJ by auto
      moreover have "distinct (filter (\<lambda>j. j \<in> set ?J) [0..<?n])" by simp
      ultimately show ?thesis using dJ by (metis set_eq_iff_mset_eq_distinct)
    qed
    moreover have "mset [0..<?n] = mset (filter (\<lambda>j. j \<in> set ?J) [0..<?n]) + mset ?R"
      unfolding mset_filter by (rule multiset_partition)
    ultimately show ?thesis by (simp only:)
  qed
  then have "image_mset (\<lambda>j. ds ! j) (mset [0..<?n]) =
             image_mset (\<lambda>j. ds ! j) (mset ?J) + image_mset (\<lambda>j. ds ! j) (mset ?R)"
    by (simp only: image_mset_union)
  then have "mset (map (\<lambda>j. ds ! j) [0..<?n]) =
             mset (map (\<lambda>j. ds ! j) ?J) + mset (map (\<lambda>j. ds ! j) ?R)"
    by (simp only: mset_map)
  then have "mset ds = mset (map fst heap) + mset (map (\<lambda>j. ds ! j) ?R)"
    by (simp only: map_nth fstJ)
  then have ms: "mset ds = mset (sort (map fst heap)) + mset (map (\<lambda>j. ds ! j) ?R)"
    by (simp only: mset_sort)
  have le: "\<forall>a\<in>set (sort (map fst heap)). \<forall>b\<in>set (map (\<lambda>j. ds ! j) ?R). a \<le> b"
  proof (intro ballI)
    fix a b assume "a \<in> set (sort (map fst heap))" "b \<in> set (map (\<lambda>j. ds ! j) ?R)"
    then obtain y j' where y: "y \<in> set heap" "a = fst y"
      and j': "j' < ?n" "j' \<notin> set ?J" "b = ds ! j'" by auto
    have "int j' \<notin> snd ` set heap"
    proof
      assume "int j' \<in> snd ` set heap"
      then have "nat (int j') \<in> set ?J" by force
      with j'(2) show False by simp
    qed
    moreover from opt y(1) have "\<forall>j'. 0 \<le> j' \<and> j' < int ?n \<and> j' \<notin> snd ` set heap \<longrightarrow> fst y \<le> ds ! nat j'"
      by (auto simp: case_prod_beta)
    ultimately have "fst y \<le> ds ! nat (int j')"
      using j'(1) by (metis of_nat_0_le_iff of_nat_less_iff)
    with y(2) j'(3) show "a \<le> b" by simp
  qed
  have "take (length (sort (map fst heap))) (sort ds) = sort (map fst heap)"
    using ms _ le by (rule sorted_append_take) simp
  moreover have "length (sort (map fst heap)) = nat k" using h(1) k by simp
  ultimately show ?thesis by simp
qed

section \<open>The neighbours kept by the scan\<close>

lemma scan_loop_result:
  assumes "0 < k" "k \<le> int (length train)" "features_ok train test d"
  shows "\<exists>heap. scan_loop fp train test k d 0 [] = Inr heap \<and>
           scan_inv (distances fp train test d) k (int (length train)) heap"
proof -
  have "\<forall>j<length train. calcDistEuclidean fp test (train ! j) d = Inr (distances fp train test d ! j)"
    using assms(3) by (simp add: features_ok_def distances_def calcDistEuclidean_in_bounds)
  then show ?thesis
    using assms(1) by (intro scan_loop_inv scan_inv_init) simp_all
qed

text \<open>The equations that evaluate the program on a concrete input.\<close>

lemmas eval_simps = exact_def dsub_def dmul_def vec_at_def calcDistEuclidean_def
  calcDist_loop.simps pq_push_def pq_pop_def pq_top_def push_heap_def pop_heap_def
  adjust_heap_def adjust_down.simps push_heap_loop.simps cmp_def scan_loop.simps
  vote_loop.simps predictOne_def double_to_int_def Let_def

lemma distances_nth:
  assumes "features_ok train test d" "j < length train"
  shows "calcDistEuclidean fp test (train ! j) d = Inr (distances fp train test d ! j)"
  using assms by (simp add: features_ok_def distances_def calcDistEuclidean_in_bounds)

lemma scan_loop_keeps_on_tie:
  assumes "0 \<le> i" "i < int (length train)"
    and "heap \<noteq> []" "\<not> int (length heap) < k"
    and "calcDistEuclidean fp test (train ! nat i) d = Inr y" "fst (heap ! 0) \<le> y"
  shows "scan_loop fp train test k d i heap = scan_loop fp train test k d (i + 1) heap"
proof -
  from assms(1,2) have row: "vec_at train i = Inr (train ! nat i)" by (simp add: vec_at_def)
  from assms(3) have top: "pq_top heap = Inr (heap ! 0)" by (rule pq_top_nonempty)
  from assms(2,4,5,6) row top show ?thesis
    by (simp add: scan_loop.simps [of fp train test k d i heap])
qed

text \<open>
  Claim C1 (selection correctness), as amended. Distances are the doubles that
  calcDistEuclidean returns, \<open>distances fp train test d\<close> being their list. For \<open>k > 0\<close>,
  \<open>|train| \<ge> k\<close> and vectors with at least \<open>d\<close> components, the scan of predictOne ends with a
  heap of exactly \<open>k\<close> entries \<open>(distance of point j, j)\<close> with pairwise distinct indices \<open>j\<close>;
  their distances, sorted, are the first \<open>k\<close> of the sorted list of all \<open>n\<close> distances; and no
  point that was left out has a smaller distance than a point that was kept. A point that
  arrives at a full heap with a distance equal to (or greater than) the distance on top of
  the heap is not taken: the heap stays as it is. Which of several points at the same
  distance as the \<open>k\<close>-th is kept is not part of the statement.
\<close>

theorem selection_k_smallest:
  assumes "0 < k" "k \<le> int (length train)" "features_ok train test d"
  shows "(\<exists>heap. scan_loop fp train test k d 0 [] = Inr heap \<and>
           int (length heap) = k \<and> distinct (map snd heap) \<and>
           (\<forall>(x, j)\<in>set heap. 0 \<le> j \<and> j < int (length train) \<and>
              calcDistEuclidean fp test (train ! nat j) d = Inr x) \<and>
           sort (map fst heap) = take (nat k) (sort (distances fp train test d)) \<and>
           (\<forall>(x, j)\<in>set heap. \<forall>j'. 0 \<le> j' \<and> j' < int (length train) \<and> j' \<notin> snd ` set heap \<longrightarrow>
              (\<exists>y. calcDistEuclidean fp test (train ! nat j') d = Inr y \<and> x \<le> y))) \<and>
         length (distances fp train test d) = length train \<and>
         (\<forall>j<length train.
            calcDistEuclidean fp test (train ! j) d = Inr (distances fp train test d ! j)) \<and>
         (\<forall>i heap y. 0 \<le> i \<and> i < int (length train) \<and> int (length heap) = k \<and>
              calcDistEuclidean fp test (train ! nat i) d = Inr y \<and> fst (heap ! 0) \<le> y \<longrightarrow>
              scan_loop fp train test k d i heap = scan_loop fp train test k d (i + 1) heap)"
proof -
  let ?ds = "distances fp train test d"
  from scan_loop_result [OF assms] obtain heap
    where r: "scan_loop fp train test k d 0 [] = Inr heap"
      and inv: "scan_inv ?ds k (int (length train)) heap" by blast
  have n: "length ?ds = length train" by (simp add: distances_def)
  have nth: "calcDistEuclidean fp test (train ! nat j) d = Inr (?ds ! nat j)"
    if "0 \<le> j" "j < int (length train)" for j
    using that by (intro distances_nth [OF assms(3)]) simp
  from inv have h: "int (length heap) = min (int (length train)) k" "distinct (map snd heap)"
    and ran: "\<forall>(x, j)\<in>set heap. 0 \<le> j \<and> j < int (length train) \<and> x = ?ds ! nat j"
    and opt: "\<forall>(x, j)\<in>set heap. \<forall>j'. 0 \<le> j' \<and> j' < int (length train) \<and> j' \<notin> snd ` set heap \<longrightarrow> x \<le> ?ds ! nat j'"
    unfolding scan_inv_def by simp_all
  have "int (length heap) = k" using h(1) assms(2) by simp
  moreover have "\<forall>(x, j)\<in>set heap. 0 \<le> j \<and> j < int (length train) \<and>
      calcDistEuclidean fp test (train ! nat j) d = Inr x"
    using ran nth by (auto simp: case_prod_beta)
  moreover have "sort (map fst heap) = take (nat k) (sort ?ds)"
    using inv assms(1,2) n by (intro scan_inv_sorted_prefix) simp_all
  moreover have "\<forall>(x, j)\<in>set heap. \<forall>j'. 0 \<le> j' \<and> j' < int (length train) \<and> j' \<notin> snd ` set heap \<longrightarrow>
      (\<exists>y. calcDistEuclidean fp test (train ! nat j') d = Inr y \<and> x \<le> y)"
    using opt nth by (auto simp: case_prod_beta)
  moreover have "\<forall>j<length train. calcDistEuclidean fp test (train ! j) d = Inr (?ds ! j)"
    using distances_nth [OF assms(3)] by blast
  moreover have "scan_loop fp train test k d i heap' = scan_loop fp train test k d (i + 1) heap'"
    if "0 \<le> i \<and> i < int (length train) \<and> int (length heap') = k \<and>
        calcDistEuclidean fp test (train ! nat i) d = Inr y \<and> fst (heap' ! 0) \<le> y" for i heap' y
  proof -
    from that assms(1) have "heap' \<noteq> []" "\<not> int (length heap') < k" by auto
    with that show ?thesis by (intro scan_loop_keeps_on_tie [where y = y]) simp_all
  qed
  ultimately show ?thesis using r h(2) n by blast
qed

theorem selection_k_smallest_witness:
  "(0::int) < 2 \<and> 2 \<le> int (length [[1,0],[1,1],[0,1::real]]) \<and>
   features_ok [[1,0],[1,1],[0,1]] [0] 1 \<and>
   distances exact [[1,0],[1,1],[0,1]] [0] 1 = [1, 1, 0] \<and>
   (\<exists>heap. scan_loop exact [[1,0],[1,1],[0,1]] [0] 2 1 0 [] = Inr heap \<and>
           int (length heap) = 2 \<and> distinct (map snd heap) \<and>
           (\<forall>(x, j)\<in>set heap. 0 \<le> j \<and> j < int (length [[1,0],[1,1],[0,1::real]]) \<and>
               calcDistEuclidean exact [0] ([[1,0],[1,1],[0,1]] ! nat j) 1 = Inr x) \<and>
           sort (map fst heap) = take (nat 2) (sort [1, 1, 0]) \<and>
           (\<forall>(x, j)\<in>set heap. \<forall>j'. 0 \<le> j' \<and> j' < int (length [[1,0],[1,1],[0,1::real]]) \<and>
               j' \<notin> snd ` set heap \<longrightarrow>
               (\<exists>y. calcDistEuclidean exact [0] ([[1,0],[1,1],[0,1]] ! nat j') 1 = Inr y \<and> x \<le> y))) \<and>
   (0::int) \<le> 1 \<and> 1 < int (length [[1,0],[1,1],[0,1::real]]) \<and>
   int (length [(1::real, 0::int), (0, 5)]) = 2 \<and>
   calcDistEuclidean exact [0] ([[1,0],[1,1],[0,1]] ! nat 1) 1 = Inr 1 \<and>
   fst ([(1::real, 0::int), (0, 5)] ! 0) \<le> 1 \<and>
   scan_loop exact [[1,0],[1,1],[0,1]] [0] 2 1 1 [(1, 0), (0, 5)] =
   scan_loop exact [[1,0],[1,1],[0,1]] [0] 2 1 (1 + 1) [(1, 0), (0, 5)]"
proof -
  have a: "(0::int) < 2" by simp
  have b: "2 \<le> int (length [[1,0],[1,1],[0,1::real]])" by simp
  have c: "features_ok [[1,0],[1,1],[0,1]] [0] 1" by (simp add: features_ok_def)
  have ds: "distances exact [[1,0],[1,1],[0,1]] [0] 1 = [1, 1, 0]"
    by (simp add: distances_def distance_def eval_simps)
  have e: "(0::int) \<le> 1 \<and> 1 < int (length [[1,0],[1,1],[0,1::real]]) \<and>
     int (length [(1::real, 0::int), (0, 5)]) = 2 \<and>
     calcDistEuclidean exact [0] ([[1,0],[1,1],[0,1]] ! nat 1) 1 = Inr 1 \<and>
     fst ([(1::real, 0::int), (0, 5)] ! 0) \<le> (1::real)"
    by (simp add: eval_simps)
  note t = selection_k_smallest [OF a b c, of exact]
  from t have "\<exists>heap. scan_loop exact [[1,0],[1,1],[0,1]] [0] 2 1 0 [] = Inr heap \<and>
           int (length heap) = 2 \<and> distinct (map snd heap) \<and>
           (\<forall>(x, j)\<in>set heap. 0 \<le> j \<and> j < int (length [[1,0],[1,1],[0,1::real]]) \<and>
               calcDistEuclidean exact [0] ([[1,0],[1,1],[0,1]] ! nat j) 1 = Inr x) \<and>
           sort (map fst heap) = take (nat 2) (sort [1, 1, 0]) \<and>
           (\<forall>(x, j)\<in>set heap. \<forall>j'. 0 \<le> j' \<and> j' < int (length [[1,0],[1,1],[0,1::real]]) \<and>
               j' \<notin> snd ` set heap \<longrightarrow>
               (\<exists>y. calcDistEuclidean exact [0] ([[1,0],[1,1],[0,1]] ! nat j') 1 = Inr y \<and> x \<le> y))"
    unfolding ds by (rule conjunct1)
  moreover from t e have "scan_loop exact [[1,0],[1,1],[0,1]] [0] 2 1 1 [(1, 0), (0, 5)] =
     scan_loop exact [[1,0],[1,1],[0,1]] [0] 2 1 (1 + 1) [(1, 0), (0, 5)]"
    by blast
  ultimately show ?thesis using a b c ds e by blast
qed

text \<open>
  Claim C1 as stated fails. Training points at distances 1, 1, 0 from the query and
  \<open>k = 2\<close> (every value on the way is 0 or 1, so that the doubles of the program compute as
  \<open>exact\<close> does): when the third point arrives the heap holds the first two, with the first
  one on top; the top is evicted, and the scan ends with the points of index 1 and 2.
  Sorting all distances with ties in index order and taking two gives the points of index 2
  and 0.
\<close>

theorem selection_lowest_index_counterexample:
  "distances exact [[1,0],[1,1],[0,1]] [0] 1 = [1, 1, 0] \<and>
   scan_loop exact [[1,0],[1,1],[0,1]] [0] 2 1 0 [] = Inr [(1, 1), (0, 2)] \<and>
   k_nearest_sorted exact [[1,0],[1,1],[0,1]] [0] 2 1 = [(0, 2), (1, 0)] \<and>
   set (projr (scan_loop exact [[1,0],[1,1],[0,1]] [0] 2 1 0 [])) \<noteq>
   set (k_nearest_sorted exact [[1,0],[1,1],[0,1]] [0] 2 1)"
proof -
  have ds: "distances exact [[1,0],[1,1],[0,1]] [0] 1 = [1, 1, 0]"
    by (simp add: distances_def distance_def eval_simps)
  have a: "scan_loop exact [[1,0],[1,1],[0,1]] [0] 2 1 0 [] = Inr [(1, 1), (0, 2)]"
    by (simp add: eval_simps)
  have b: "k_nearest_sorted exact [[1,0],[1,1],[0,1]] [0] 2 1 = [(0, 2), (1, 0)]"
    by (simp add: k_nearest_sorted_def ds)
  have c: "set [(1::real, 1::int), (0, 2)] \<noteq> set [(0, 2), (1, 0)]"
  proof
    assume e: "set [(1::real, 1::int), (0, 2)] = set [(0, 2), (1, 0)]"
    have "(1::real, 0::int) \<in> set [(0, 2), (1, 0)]" by simp
    then have "(1::real, 0::int) \<in> set [(1, 1), (0, 2)]" by (simp only: e)
    then show False by simp
  qed
  show ?thesis unfolding a b using c ds by simp
qed

text \<open>
  Claim C9 (size of the neighbour set). For \<open>k > 0\<close>, \<open>|train| \<ge> k\<close> and vectors with at
  least \<open>d\<close> components, the heap at the end of the scan has exactly \<open>k\<close> entries, and
  their indices are pairwise distinct indices of training points.
\<close>

theorem neighbor_set_size_distinct:
  assumes "0 < k" "k \<le> int (length train)" "features_ok train test d"
  shows "\<exists>heap. scan_loop fp train test k d 0 [] = Inr heap \<and>
           int (length heap) = k \<and> distinct (map snd heap) \<and>
           snd ` set heap \<subseteq> {0..<int (length train)}"
proof -
  from scan_loop_result [OF assms] obtain heap
    where r: "scan_loop fp train test k d 0 [] = Inr heap"
      and inv: "scan_inv (distances fp train test d) k (int (length train)) heap" by blast
  from inv assms(2) have "int (length heap) = k" "distinct (map snd heap)"
    "snd ` set heap \<subseteq> {0..<int (length train)}"
    unfolding scan_inv_def by auto
  with r show ?thesis by blast
qed

theorem neighbor_set_size_distinct_witness:
  "(0::int) < 2 \<and> 2 \<le> int (length [[1,0],[1,1],[0,1::real]]) \<and>
   features_ok [[1,0],[1,1],[0,1]] [0] 1 \<and>
   (\<exists>heap. scan_loop exact [[1,0],[1,1],[0,1]] [0] 2 1 0 [] = Inr heap \<and>
           int (length heap) = 2 \<and> distinct (map snd heap) \<and>
           snd ` set heap \<subseteq> {0..<int (length [[1,0],[1,1],[0,1::real]])})"
proof -
  have a: "(0::int) < 2" by simp
  have b: "2 \<le> int (length [[1,0],[1,1],[0,1::real]])" by simp
  have c: "features_ok [[1,0],[1,1],[0,1]] [0] 1" by (simp add: features_ok_def)
  from neighbor_set_size_distinct [OF a b c] a b c show ?thesis by blast
qed

section \<open>The vote\<close>

lemma tally_mset:
  "tally train d heap =
   sum_mset (image_mset (\<lambda>(x, j). contribution (train ! nat j ! nat d)) (mset heap))"
proof -
  have "sum_list (map (\<lambda>(x, j). contribution (train ! nat j ! nat d)) heap) =
        sum_mset (mset (map (\<lambda>(x, j). contribution (train ! nat j ! nat d)) heap))"
    by (rule sum_mset_sum_list [symmetric])
  then show ?thesis unfolding tally_def by (simp only: mset_map)
qed

lemma tally_pop:
  assumes "heap \<noteq> []"
  shows "tally train d heap =
         contribution (train ! nat (snd (heap ! 0)) ! nat d) + tally train d (pq_pop heap)"
  unfolding tally_mset
  by (subst pq_pop_mset_split [OF assms]) (simp add: case_prod_beta)

lemma vote_loop_Nil: "vote_loop train d [] vote = Inr vote"
  by (simp add: vote_loop.simps [of train d "[]" vote])

lemma vote_loop_tally:
  assumes "0 \<le> d"
    and "\<forall>(x, j)\<in>set heap. 0 \<le> j \<and> j < int (length train) \<and> d < int (length (train ! nat j))"
  shows "vote_loop train d heap vote = Inr (vote + tally train d heap)"
  using assms
proof (induction train d heap vote rule: vote_loop.induct)
  case (1 train d heap vote)
  show ?case
  proof (cases "heap = []")
    case True
    then show ?thesis by (simp add: vote_loop_Nil tally_def)
  next
    case False
    let ?top = "heap ! 0"
    let ?idx = "snd ?top"
    let ?row = "train ! nat ?idx"
    let ?x = "?row ! nat d"
    have top: "pq_top heap = Inr ?top" using False by (rule pq_top_nonempty)
    have "?top \<in> set heap" using False by simp
    with "1.prems"(2) have idx: "0 \<le> ?idx" "?idx < int (length train)" "d < int (length ?row)"
      by (auto simp: case_prod_beta)
    then have row: "vec_at train ?idx = Inr ?row" and x: "vec_at ?row d = Inr ?x"
      using "1.prems"(1) by (simp_all add: vec_at_def)
    have sub: "\<forall>(x, j)\<in>set (pq_pop heap). 0 \<le> j \<and> j < int (length train) \<and> d < int (length (train ! nat j))"
      using "1.prems"(2) pq_pop_set [OF False] by auto
    have "vote_loop train d heap vote =
          vote_loop train d (pq_pop heap) (vote + (if double_to_int ?x = 0 then - 1 else 1))"
      using False top row x by (simp add: vote_loop.simps [of train d heap vote] Let_def)
    also have "\<dots> = Inr (vote + (if double_to_int ?x = 0 then - 1 else 1) + tally train d (pq_pop heap))"
      by (rule "1.IH" [OF False top refl row x refl "1.prems"(1) sub])
    also have "\<dots> = Inr (vote + tally train d heap)"
      using tally_pop [OF False, of train d] by (simp add: contribution_def)
    finally show ?thesis .
  qed
qed

lemma scan_loop_error: "scan_loop fp train test k d i heap = Inl e \<Longrightarrow> e = OutOfBounds"
proof (induction fp train test k d i heap rule: scan_loop.induct)
  case (1 fp train test k d i heap)
  show ?case
  proof (cases "i < int (length train)")
    case False
    with "1.prems" show ?thesis by (simp add: scan_loop.simps [of fp train test k d i heap])
  next
    case True
    show ?thesis
    proof (cases "vec_at train i")
      case (Inl e1)
      with True "1.prems" show ?thesis
        by (simp add: scan_loop.simps [of fp train test k d i heap] vec_at_error)
    next
      case row: (Inr row)
      show ?thesis
      proof (cases "calcDistEuclidean fp test row d")
        case (Inl e2)
        with True row "1.prems" show ?thesis
          by (simp add: scan_loop.simps [of fp train test k d i heap] calcDistEuclidean_error)
      next
        case dist: (Inr dist')
        show ?thesis
        proof (cases "int (length heap) < k")
          case len: True
          with True row dist "1.prems" "1.IH"(1) [OF True row dist len] show ?thesis
            by (simp add: scan_loop.simps [of fp train test k d i heap])
        next
          case len: False
          show ?thesis
          proof (cases "pq_top heap")
            case (Inl e3)
            with True row dist len "1.prems" show ?thesis
              by (simp add: scan_loop.simps [of fp train test k d i heap] pq_top_def vec_at_error)
          next
            case top: (Inr top')
            show ?thesis
            proof (cases "dist' < fst top'")
              case lt: True
              with True row dist len top "1.prems" "1.IH"(2) [OF True row dist len top lt]
              show ?thesis by (simp add: scan_loop.simps [of fp train test k d i heap])
            next
              case lt: False
              with True row dist len top "1.prems" "1.IH"(3) [OF True row dist len top lt]
              show ?thesis by (simp add: scan_loop.simps [of fp train test k d i heap])
            qed
          qed
        qed
      qed
    qed
  qed
qed

lemma vote_loop_error: "vote_loop train d heap vote = Inl e \<Longrightarrow> e = OutOfBounds"
proof (induction train d heap vote rule: vote_loop.induct)
  case (1 train d heap vote)
  show ?case
  proof (cases "heap = []")
    case True
    with "1.prems" show ?thesis by (simp add: vote_loop_Nil)
  next
    case False
    show ?thesis
    proof (cases "pq_top heap")
      case (Inl e1)
      with False "1.prems" show ?thesis
        by (simp add: vote_loop.simps [of train d heap vote] pq_top_def vec_at_error)
    next
      case top: (Inr top')
      show ?thesis
      proof (cases "vec_at train (snd top')")
        case (Inl e2)
        with False top "1.prems" show ?thesis
          by (simp add: vote_loop.simps [of train d heap vote] vec_at_error)
      next
        case row: (Inr row)
        show ?thesis
        proof (cases "vec_at row d")
          case (Inl e3)
          with False top row "1.prems" show ?thesis
            by (simp add: vote_loop.simps [of train d heap vote] vec_at_error)
        next
          case x: (Inr x)
          with False top row "1.prems" "1.IH" [OF False top refl row x refl]
          show ?thesis by (simp add: vote_loop.simps [of train d heap vote] Let_def)
        qed
      qed
    qed
  qed
qed

lemma predictOne_error_cases:
  assumes e: "predictOne fp train test k d = Inl e"
  shows "(k \<le> 0 \<and> e = InvalidArgument ''k must be > 0'') \<or>
   (0 < k \<and> int (length train) < k \<and>
      e = InvalidArgument ''k cannot be larger than number of training points'') \<or>
   (0 < k \<and> k \<le> int (length train) \<and> e = OutOfBounds)"
proof (cases "k \<le> 0")
  case True
  with e show ?thesis by (simp add: predictOne_def)
next
  case k: False
  show ?thesis
  proof (cases "int (length train) < k")
    case True
    with k e show ?thesis by (simp add: predictOne_def)
  next
    case n: False
    show ?thesis
    proof (cases "scan_loop fp train test k d 0 []")
      case (Inl e1)
      with k n e have "e = e1" by (simp add: predictOne_def)
      with Inl have "e = OutOfBounds" by (simp add: scan_loop_error)
      with k n show ?thesis by simp
    next
      case (Inr heap)
      show ?thesis
      proof (cases "vote_loop train d heap 0")
        case (Inl e2)
        with k n e Inr have "e = e2" by (simp add: predictOne_def)
        with Inl have "e = OutOfBounds" by (simp add: vote_loop_error)
        with k n show ?thesis by simp
      next
        case v: (Inr vote)
        with k n e Inr show ?thesis by (simp add: predictOne_def)
      qed
    qed
  qed
qed

lemma predictOne_tally:
  assumes "0 < k" "k \<le> int (length train)" "features_ok train test d" "labels_ok train d"
  shows "\<exists>heap. scan_loop fp train test k d 0 [] = Inr heap \<and>
           scan_inv (distances fp train test d) k (int (length train)) heap \<and>
           predictOne fp train test k d = Inr (if 0 \<le> tally train d heap then 1 else 0)"
proof -
  from scan_loop_result [OF assms(1,2,3)] obtain heap
    where r: "scan_loop fp train test k d 0 [] = Inr heap"
      and inv: "scan_inv (distances fp train test d) k (int (length train)) heap" by blast
  have "\<forall>(x, j)\<in>set heap. 0 \<le> j \<and> j < int (length train) \<and> d < int (length (train ! nat j))"
  proof (intro ballI, clarify)
    fix x j assume "(x, j) \<in> set heap"
    with inv have j: "0 \<le> j" "j < int (length train)" unfolding scan_inv_def by auto
    then have "train ! nat j \<in> set train" by simp
    with assms(4) j show "0 \<le> j \<and> j < int (length train) \<and> d < int (length (train ! nat j))"
      by (simp add: labels_ok_def)
  qed
  with assms(4) have "vote_loop train d heap 0 = Inr (0 + tally train d heap)"
    by (intro vote_loop_tally) (simp_all add: labels_ok_def)
  with r inv assms(1,2) show ?thesis by (simp add: predictOne_def)
qed

text \<open>
  Claim C2 (majority vote). \<open>contribution\<close> is \<open>-1\<close> for the label 0 and \<open>+1\<close> for the label
  1. For \<open>k > 0\<close>, \<open>|train| \<ge> k\<close>, vectors with at least \<open>d\<close> components and training vectors
  with a label at index \<open>d\<close>, predictOne returns 1 if the tally of the contributions of the
  kept neighbours is at least 0, and 0 otherwise; a tally of exactly 0 gives 1.
\<close>

theorem majority_vote:
  assumes "0 < k" "k \<le> int (length train)" "features_ok train test d" "labels_ok train d"
  shows "contribution 0 = - 1 \<and> contribution 1 = 1 \<and>
         (\<exists>heap. scan_loop fp train test k d 0 [] = Inr heap \<and>
            predictOne fp train test k d = Inr (if 0 \<le> tally train d heap then 1 else 0) \<and>
            (tally train d heap = 0 \<longrightarrow> predictOne fp train test k d = Inr 1))"
proof -
  from predictOne_tally [OF assms] obtain heap
    where "scan_loop fp train test k d 0 [] = Inr heap"
      and "predictOne fp train test k d = Inr (if 0 \<le> tally train d heap then 1 else 0)"
    by blast
  then show ?thesis by (auto simp: contribution_def double_to_int_def)
qed

theorem majority_vote_witness:
  "(0::int) < 2 \<and> 2 \<le> int (length [[0, 0], [2, 1::real]]) \<and>
   features_ok [[0, 0], [2, 1]] [1] 1 \<and> labels_ok [[0, 0], [2, 1]] 1 \<and>
   calcDistEuclidean exact [1] [0, 0] 1 = Inr 1 \<and> calcDistEuclidean exact [1] [2, 1] 1 = Inr 1 \<and>
   tally [[0, 0], [2, 1]] 1 [(1, 0), (1, 1)] = 0 \<and>
   scan_loop exact [[0, 0], [2, 1]] [1] 2 1 0 [] = Inr [(1, 0), (1, 1)] \<and>
   predictOne exact [[0, 0], [2, 1]] [1] 2 1 = Inr 1"
proof -
  have a: "(0::int) < 2" by simp
  have b: "2 \<le> int (length [[0, 0], [2, 1::real]])" by simp
  have c: "features_ok [[0, 0], [2, 1]] [1] 1" by (simp add: features_ok_def)
  have d: "labels_ok [[0, 0], [2, 1]] 1" by (simp add: labels_ok_def)
  have s: "scan_loop exact [[0, 0], [2, 1]] [1] 2 1 0 [] = Inr [(1, 0), (1, 1)]"
    by (simp add: eval_simps)
  have t: "tally [[0, 0], [2, 1]] 1 [(1, 0), (1, 1)] = 0"
    by (simp add: tally_def contribution_def double_to_int_def)
  have e: "calcDistEuclidean exact [1] [0, 0] 1 = Inr 1" "calcDistEuclidean exact [1] [2, 1] 1 = Inr 1"
    by (simp_all add: eval_simps)
  from majority_vote [OF a b c d, where fp = exact] s t have "predictOne exact [[0, 0], [2, 1]] [1] 2 1 = Inr 1"
    by auto
  with a b c d e s t show ?thesis by blast
qed

section \<open>One neighbour\<close>

lemma scan_loop_first_min:
  assumes "train \<noteq> []" "features_ok train test d"
  shows "\<exists>x j. scan_loop fp train test 1 d 0 [] = Inr [(x, j)] \<and>
           scan_inv (distances fp train test d) 1 (int (length train)) [(x, j)] \<and>
           (\<forall>j'. 0 \<le> j' \<and> j' < j \<longrightarrow> x < distances fp train test d ! nat j')"
proof -
  let ?ds = "distances fp train test d"
  let ?Q = "\<lambda>(i::int) heap. \<forall>(x, j)\<in>set heap. \<forall>j'. 0 \<le> j' \<and> j' < j \<longrightarrow> x < ?ds ! nat j'"
  have ds: "\<forall>j<length train. calcDistEuclidean fp test (train ! j) d = Inr (?ds ! j)"
    using assms(2) by (simp add: features_ok_def distances_def calcDistEuclidean_in_bounds)
  have "\<exists>heap'. scan_loop fp train test 1 d 0 [] = Inr heap' \<and>
           scan_inv ?ds 1 (int (length train)) heap' \<and> ?Q (int (length train)) heap'"
  proof (rule scan_loop_inv_gen [where Q = ?Q and ds = ?ds])
    show "0 < (1::int)" by simp
    show "\<forall>j<length train. calcDistEuclidean fp test (train ! j) d = Inr (?ds ! j)" by (rule ds)
    show "0 \<le> (0::int)" by simp
    show "0 \<le> int (length train)" by simp
    show "scan_inv ?ds 1 0 []" by (rule scan_inv_init) simp
    show "?Q 0 []" by simp
  next
    fix i heap
    assume a: "0 \<le> i" "scan_inv ?ds 1 i heap" "int (length heap) < 1"
    from a(3) have e: "heap = []" by simp
    with a(2) have "min i 1 = 0" by (simp add: scan_inv_def)
    with a(1) have "i = 0" by arith
    with e show "?Q (i + 1) (pq_push heap (?ds ! nat i, i))" by (simp add: pq_push_set)
  next
    fix i heap
    assume a: "0 \<le> i" "scan_inv ?ds 1 i heap" "\<not> int (length heap) < 1"
      "?ds ! nat i < fst (heap ! 0)"
    from a(2) have len: "int (length heap) = min i 1"
      and ran: "\<forall>(x, j)\<in>set heap. 0 \<le> j \<and> j < i \<and> x = ?ds ! nat j"
      and opt: "\<forall>(x, j)\<in>set heap. \<forall>j'. 0 \<le> j' \<and> j' < i \<and> j' \<notin> snd ` set heap \<longrightarrow> x \<le> ?ds ! nat j'"
      unfolding scan_inv_def by simp_all
    from len a(3) have l: "length heap = 1" by arith
    from l have "length (pq_pop heap) = 0" by (simp add: length_pq_pop)
    then have p: "pq_pop heap = []" by simp
    from l obtain t where ht: "heap = [t]" by (cases heap) auto
    from ran ht have t1: "fst t = ?ds ! nat (snd t)" by (simp add: case_prod_beta)
    from opt ht have t2: "\<forall>j'. 0 \<le> j' \<and> j' < i \<and> j' \<noteq> snd t \<longrightarrow> fst t \<le> ?ds ! nat j'"
      by (simp add: case_prod_beta)
    from a(4) ht have lt: "?ds ! nat i < fst t" by simp
    have "?ds ! nat i < ?ds ! nat j'" if j': "0 \<le> j'" "j' < i" for j'
    proof (cases "j' = snd t")
      case True
      with t1 lt show ?thesis by simp
    next
      case False
      with t2 j' have "fst t \<le> ?ds ! nat j'" by blast
      with lt show ?thesis by simp
    qed
    then show "?Q (i + 1) (pq_push (pq_pop heap) (?ds ! nat i, i))"
      unfolding p by (simp add: pq_push_set)
  next
    fix i :: int and heap :: "Neighbor list"
    assume "?Q i heap"
    then show "?Q (i + 1) heap" .
  qed
  then obtain heap where r: "scan_loop fp train test 1 d 0 [] = Inr heap"
    and inv: "scan_inv ?ds 1 (int (length train)) heap" and q: "?Q (int (length train)) heap"
    by blast
  from inv assms(1) have "length heap = 1"
    unfolding scan_inv_def by (cases train) simp_all
  then obtain x j where h: "heap = [(x, j)]"
    by (cases heap) auto
  from q h have "\<forall>j'. 0 \<le> j' \<and> j' < j \<longrightarrow> x < ?ds ! nat j'" by simp
  with r inv h show ?thesis by blast
qed

lemma tally_single: "tally train d [(x, j)] = contribution (train ! nat j ! nat d)"
  by (simp add: tally_def)

text \<open>
  Claim C5 (one neighbour). Distances are the doubles that calcDistEuclidean returns
  (\<open>distance\<close>). With \<open>k = 1\<close>, a non-empty training set, vectors with at least \<open>d\<close>
  components and a label at index \<open>d\<close>, there is a training point \<open>j\<close> whose distance to the
  query is at most that of every other point and strictly less than that of every point
  before it (the lowest index among the closest), and predictOne returns 0 if the label of
  \<open>j\<close> casts to 0 and 1 otherwise; when that label is 0 or 1 (the binary labels of the data
  model), the prediction is the label.
\<close>

theorem nearest_neighbor_k1:
  assumes "train \<noteq> []" "features_ok train test d" "labels_ok train d"
  shows "(\<forall>j'<length train.
            calcDistEuclidean fp test (train ! j') d = Inr (distance fp test (train ! j') d)) \<and>
         (\<exists>j<length train.
           (\<forall>j'<length train. distance fp test (train ! j) d \<le> distance fp test (train ! j') d) \<and>
           (\<forall>j'<j. distance fp test (train ! j) d < distance fp test (train ! j') d) \<and>
           predictOne fp train test 1 d =
             Inr (if double_to_int (train ! j ! nat d) = 0 then 0 else 1) \<and>
           (train ! j ! nat d = 0 \<or> train ! j ! nat d = 1 \<longrightarrow>
              (\<exists>c. predictOne fp train test 1 d = Inr c \<and> real_of_int c = train ! j ! nat d)))"
proof -
  let ?ds = "distances fp train test d"
  from scan_loop_first_min [OF assms(1,2)] obtain x j
    where r: "scan_loop fp train test 1 d 0 [] = Inr [(x, j)]"
      and inv: "scan_inv ?ds 1 (int (length train)) [(x, j)]"
      and first: "\<forall>j'. 0 \<le> j' \<and> j' < j \<longrightarrow> x < ?ds ! nat j'" by blast
  from inv have j: "0 \<le> j" "j < int (length train)" and x: "x = ?ds ! nat j"
    unfolding scan_inv_def by simp_all
  from inv have "\<forall>(x', j0)\<in>set [(x, j)]. \<forall>j'. 0 \<le> j' \<and> j' < int (length train) \<and>
      j' \<notin> snd ` set [(x, j)] \<longrightarrow> x' \<le> ?ds ! nat j'"
    unfolding scan_inv_def by (elim conjE)
  then have opt: "\<forall>j'. 0 \<le> j' \<and> j' < int (length train) \<and> j' \<noteq> j \<longrightarrow> x \<le> ?ds ! nat j'"
    by simp
  have nth: "?ds ! i = distance fp test (train ! i) d" if "i < length train" for i
    using that by (simp add: distances_def)
  have ret: "\<forall>j'<length train.
      calcDistEuclidean fp test (train ! j') d = Inr (distance fp test (train ! j') d)"
    using distances_nth [OF assms(2)] nth by simp
  have jn: "nat j < length train" using j by simp
  have xe: "x = distance fp test (train ! nat j) d" using x nth [OF jn] by simp
  have le: "distance fp test (train ! nat j) d \<le> distance fp test (train ! j') d"
    if "j' < length train" for j'
  proof (cases "int j' = j")
    case True
    then have "nat j = j'" by auto
    then show ?thesis by simp
  next
    case False
    with opt that have "x \<le> ?ds ! nat (int j')" by (metis of_nat_0_le_iff of_nat_less_iff)
    with xe nth [OF that] show ?thesis by simp
  qed
  have lt: "distance fp test (train ! nat j) d < distance fp test (train ! j') d"
    if "j' < nat j" for j'
  proof -
    from that have "0 \<le> int j' \<and> int j' < j" by auto
    with first have "x < ?ds ! nat (int j')" by blast
    moreover from that jn have "j' < length train" by simp
    ultimately show ?thesis using xe nth by simp
  qed
  from predictOne_tally [OF _ _ assms(2,3), of 1 fp] assms(1) r
  have p: "predictOne fp train test 1 d =
           Inr (if 0 \<le> contribution (train ! nat j ! nat d) then 1 else 0)"
    by (cases train) (auto simp: tally_single)
  then have p1: "predictOne fp train test 1 d =
           Inr (if double_to_int (train ! nat j ! nat d) = 0 then 0 else 1)"
    by (simp add: contribution_def)
  have p2: "\<exists>c. predictOne fp train test 1 d = Inr c \<and> real_of_int c = train ! nat j ! nat d"
    if "train ! nat j ! nat d = 0 \<or> train ! nat j ! nat d = 1"
    using that p1 by (auto simp: double_to_int_def)
  from jn le lt p1 p2 have "\<exists>j<length train.
           (\<forall>j'<length train. distance fp test (train ! j) d \<le> distance fp test (train ! j') d) \<and>
           (\<forall>j'<j. distance fp test (train ! j) d < distance fp test (train ! j') d) \<and>
           predictOne fp train test 1 d =
             Inr (if double_to_int (train ! j ! nat d) = 0 then 0 else 1) \<and>
           (train ! j ! nat d = 0 \<or> train ! j ! nat d = 1 \<longrightarrow>
              (\<exists>c. predictOne fp train test 1 d = Inr c \<and> real_of_int c = train ! j ! nat d))"
    by blast
  with ret show ?thesis by blast
qed

theorem nearest_neighbor_k1_witness:
  "[[0, 0], [0, 1], [3, 0::real]] \<noteq> [] \<and> features_ok [[0, 0], [0, 1], [3, 0]] [1] 1 \<and>
   labels_ok [[0, 0], [0, 1], [3, 0]] 1 \<and>
   distance exact [1] [0, 0] 1 = 1 \<and> distance exact [1] [0, 1] 1 = 1 \<and>
   distance exact [1] [3, 0] 1 = 2 \<and>
   scan_loop exact [[0, 0], [0, 1], [3, 0]] [1] 1 1 0 [] = Inr [(1, 0)] \<and>
   predictOne exact [[0, 0], [0, 1], [3, 0]] [1] 1 1 = Inr 0 \<and>
   (\<exists>j<length [[0, 0], [0, 1], [3, 0::real]].
      predictOne exact [[0, 0], [0, 1], [3, 0]] [1] 1 1 =
        Inr (if double_to_int ([[0, 0], [0, 1], [3, 0]] ! j ! nat 1) = 0 then 0 else 1))"
proof -
  have a: "[[0, 0], [0, 1], [3, 0::real]] \<noteq> []" by simp
  have b: "features_ok [[0, 0], [0, 1], [3, 0]] [1] 1" by (simp add: features_ok_def)
  have c: "labels_ok [[0, 0], [0, 1], [3, 0]] 1" by (simp add: labels_ok_def)
  have ds: "distance exact [1] [0, 0] 1 = 1" "distance exact [1] [0, 1] 1 = 1"
    "distance exact [1] [3, 0] 1 = 2"
    by (simp_all add: distance_def eval_simps)
  have s: "scan_loop exact [[0, 0], [0, 1], [3, 0]] [1] 1 1 0 [] = Inr [(1, 0)]"
    by (simp add: eval_simps)
  have p: "predictOne exact [[0, 0], [0, 1], [3, 0]] [1] 1 1 = Inr 0"
    by (simp add: eval_simps)
  from nearest_neighbor_k1 [OF a b c, of exact] a b c ds s p show ?thesis by blast
qed

section \<open>Errors of predictOne\<close>

lemma predictOne_k_nonpositive:
  "k \<le> 0 \<Longrightarrow> predictOne fp train test k d = Inl (InvalidArgument ''k must be > 0'')"
  by (simp add: predictOne_def)

lemma predictOne_k_too_large:
  "0 < k \<Longrightarrow> int (length train) < k \<Longrightarrow>
   predictOne fp train test k d =
     Inl (InvalidArgument ''k cannot be larger than number of training points'')"
  by (simp add: predictOne_def)

lemma predictOne_returns:
  assumes "0 < k" "k \<le> int (length train)" "features_ok train test d" "labels_ok train d"
  shows "\<exists>c. predictOne fp train test k d = Inr c \<and> (c = 0 \<or> c = 1)"
  using predictOne_tally [OF assms, where fp = fp] by auto

text \<open>
  Claim C3 (errors of the selector). predictOne fails with an InvalidArgument error exactly
  when \<open>k \<le> 0\<close> or \<open>k > |train|\<close>, with the message of the first check that fails. The
  failure is decided before any vector is read: it is the same on a training set of the same
  size whose vectors are all empty. There is no other error: with a valid \<open>k\<close> and vectors
  long enough for the reads, predictOne returns a prediction.
\<close>

theorem predictOne_invalid_argument:
  "((\<exists>msg. predictOne fp train test k d = Inl (InvalidArgument msg)) \<longleftrightarrow>
      (k \<le> 0 \<or> int (length train) < k)) \<and>
   (k \<le> 0 \<longrightarrow> predictOne fp train test k d = Inl (InvalidArgument ''k must be > 0'')) \<and>
   (0 < k \<and> int (length train) < k \<longrightarrow>
      predictOne fp train test k d =
        Inl (InvalidArgument ''k cannot be larger than number of training points'')) \<and>
   (k \<le> 0 \<or> int (length train) < k \<longrightarrow>
      predictOne fp train test k d = predictOne fp (replicate (length train) []) [] k d) \<and>
   (0 < k \<and> k \<le> int (length train) \<and> features_ok train test d \<and> labels_ok train d \<longrightarrow>
      (\<exists>c. predictOne fp train test k d = Inr c))"
proof -
  have "(\<exists>msg. predictOne fp train test k d = Inl (InvalidArgument msg)) \<longleftrightarrow>
      (k \<le> 0 \<or> int (length train) < k)"
  proof
    assume "\<exists>msg. predictOne fp train test k d = Inl (InvalidArgument msg)"
    then obtain msg where "predictOne fp train test k d = Inl (InvalidArgument msg)" ..
    from predictOne_error_cases [OF this] show "k \<le> 0 \<or> int (length train) < k" by auto
  next
    assume "k \<le> 0 \<or> int (length train) < k"
    then show "\<exists>msg. predictOne fp train test k d = Inl (InvalidArgument msg)"
      by (cases "k \<le> 0") (simp_all add: predictOne_k_nonpositive predictOne_k_too_large)
  qed
  moreover have "k \<le> 0 \<or> int (length train) < k \<longrightarrow>
      predictOne fp train test k d = predictOne fp (replicate (length train) []) [] k d"
    by (simp add: predictOne_def)
  ultimately show ?thesis
    using predictOne_returns [of k train test d]
    by (simp add: predictOne_k_nonpositive predictOne_k_too_large) blast
qed

theorem predictOne_invalid_argument_witness:
  "predictOne exact [[0, 0]] [0] 0 1 = Inl (InvalidArgument ''k must be > 0'') \<and>
   predictOne exact [[0, 0]] [0] (- 3) 1 = Inl (InvalidArgument ''k must be > 0'') \<and>
   predictOne exact [[0, 0]] [0] 2 1 =
     Inl (InvalidArgument ''k cannot be larger than number of training points'') \<and>
   (0::int) < 1 \<and> 1 \<le> int (length [[0, 0::real]]) \<and> features_ok [[0, 0]] [0] 1 \<and>
   labels_ok [[0, 0]] 1 \<and> (\<exists>c. predictOne exact [[0, 0]] [0] 1 1 = Inr c)"
proof -
  have f: "features_ok [[0, 0]] [0] 1" by (simp add: features_ok_def)
  have l: "labels_ok [[0, 0]] 1" by (simp add: labels_ok_def)
  from predictOne_invalid_argument [of exact "[[0, 0]]" "[0]" 0 1]
  have a: "predictOne exact [[0, 0]] [0] 0 1 = Inl (InvalidArgument ''k must be > 0'')" by simp
  from predictOne_invalid_argument [of exact "[[0, 0]]" "[0]" "- 3" 1]
  have b: "predictOne exact [[0, 0]] [0] (- 3) 1 = Inl (InvalidArgument ''k must be > 0'')" by simp
  from predictOne_invalid_argument [of exact "[[0, 0]]" "[0]" 2 1]
  have c: "predictOne exact [[0, 0]] [0] 2 1 =
     Inl (InvalidArgument ''k cannot be larger than number of training points'')"
    by simp
  from predictOne_invalid_argument [of exact "[[0, 0]]" "[0]" 1 1] f l
  have e: "\<exists>c. predictOne exact [[0, 0]] [0] 1 1 = Inr c" by simp
  from a b c e f l show ?thesis by simp
qed

section \<open>Reads in range\<close>

lemma vote_loop_out_of_range:
  assumes "\<forall>(x, j)\<in>set heap. 0 \<le> j \<and> j < int (length train)"
    and "\<exists>(x, j)\<in>set heap. int (length (train ! nat j)) \<le> d"
  shows "vote_loop train d heap vote = Inl OutOfBounds"
  using assms
proof (induction train d heap vote rule: vote_loop.induct)
  case (1 train d heap vote)
  from "1.prems"(2) have ne: "heap \<noteq> []" by auto
  let ?top = "heap ! 0"
  let ?idx = "snd ?top"
  let ?row = "train ! nat ?idx"
  have top: "pq_top heap = Inr ?top" using ne by (rule pq_top_nonempty)
  have tin: "?top \<in> set heap" using ne by simp
  with "1.prems"(1) have idx: "0 \<le> ?idx" "?idx < int (length train)"
    by (auto simp: case_prod_beta)
  then have row: "vec_at train ?idx = Inr ?row" by (simp add: vec_at_def)
  show ?case
  proof (cases "vec_at ?row d")
    case (Inl e)
    then have "e = OutOfBounds" by (rule vec_at_error)
    with Inl ne top row show ?thesis
      by (simp add: vote_loop.simps [of train d heap vote])
  next
    case x: (Inr x)
    then have ok: "d < int (length ?row)" by (simp add: vec_at_def split: if_splits)
    have sub: "\<forall>(x, j)\<in>set (pq_pop heap). 0 \<le> j \<and> j < int (length train)"
      using "1.prems"(1) pq_pop_set [OF ne] by auto
    from "1.prems"(2) obtain y where y: "y \<in> set heap" "int (length (train ! nat (snd y))) \<le> d"
      by (auto simp: case_prod_beta)
    with ok have "y \<noteq> ?top" by auto
    with y(1) pq_pop_set [OF ne] have "y \<in> set (pq_pop heap)" by auto
    with y(2) have bad: "\<exists>(x, j)\<in>set (pq_pop heap). int (length (train ! nat j)) \<le> d"
      by (auto simp: case_prod_beta)
    have "vote_loop train d heap vote =
          vote_loop train d (pq_pop heap) (vote + (if double_to_int x = 0 then - 1 else 1))"
      using ne top row x by (simp add: vote_loop.simps [of train d heap vote] Let_def)
    also have "\<dots> = Inl OutOfBounds"
      by (rule "1.IH" [OF ne top refl row x refl sub bad])
    finally show ?thesis .
  qed
qed

text \<open>
  Claim C8 (reads in range). predictOne reads the label of a kept neighbour at index \<open>d\<close>.
  When \<open>d \<ge> 0\<close>, the query has at least \<open>d\<close> components and every training vector has at
  least \<open>d + 1\<close>, no read of predictOne or calcDistEuclidean is out of range. At least \<open>d\<close>
  components are enough for the distances but not for predictOne: when a kept neighbour has
  no component at index \<open>d\<close>, the read of its label is out of range.
\<close>

theorem label_read_in_bounds:
  "(0 \<le> d \<and> d \<le> int (length test) \<and> (\<forall>row\<in>set train. d + 1 \<le> int (length row)) \<longrightarrow>
      predictOne fp train test k d \<noteq> Inl OutOfBounds \<and>
      (\<forall>row\<in>set train. calcDistEuclidean fp test row d \<noteq> Inl OutOfBounds)) \<and>
   (features_ok train test d \<longrightarrow>
      (\<forall>row\<in>set train. calcDistEuclidean fp test row d \<noteq> Inl OutOfBounds)) \<and>
   (0 < k \<and> k \<le> int (length train) \<and> features_ok train test d \<and>
    (\<exists>heap x j. scan_loop fp train test k d 0 [] = Inr heap \<and> (x, j) \<in> set heap \<and>
       int (length (train ! nat j)) \<le> d) \<longrightarrow>
      predictOne fp train test k d = Inl OutOfBounds)"
proof (intro conjI impI)
  assume a: "0 \<le> d \<and> d \<le> int (length test) \<and> (\<forall>row\<in>set train. d + 1 \<le> int (length row))"
  then have f: "features_ok train test d" and l: "labels_ok train d"
    by (auto simp: features_ok_def labels_ok_def)
  show "predictOne fp train test k d \<noteq> Inl OutOfBounds"
  proof (cases "0 < k \<and> k \<le> int (length train)")
    case True
    with predictOne_returns [of k train test d] f l
    have "\<exists>c. predictOne fp train test k d = Inr c" by blast
    then show ?thesis by auto
  next
    case False
    then show ?thesis
      by (cases "k \<le> 0") (simp_all add: predictOne_k_nonpositive predictOne_k_too_large)
  qed
  show "\<forall>row\<in>set train. calcDistEuclidean fp test row d \<noteq> Inl OutOfBounds"
    using f by (simp add: features_ok_def calcDistEuclidean_in_bounds)
next
  assume "features_ok train test d"
  then show "\<forall>row\<in>set train. calcDistEuclidean fp test row d \<noteq> Inl OutOfBounds"
    by (simp add: features_ok_def calcDistEuclidean_in_bounds)
next
  assume a: "0 < k \<and> k \<le> int (length train) \<and> features_ok train test d \<and>
    (\<exists>heap x j. scan_loop fp train test k d 0 [] = Inr heap \<and> (x, j) \<in> set heap \<and>
       int (length (train ! nat j)) \<le> d)"
  then obtain heap x j where r: "scan_loop fp train test k d 0 [] = Inr heap"
    and bad: "(x, j) \<in> set heap" "int (length (train ! nat j)) \<le> d" by blast
  from a scan_loop_result [where fp = fp and k = k and train = train and test = test and d = d] r
  have inv: "scan_inv (distances fp train test d) k (int (length train)) heap" by auto
  then have "\<forall>(x, j)\<in>set heap. 0 \<le> j \<and> j < int (length train)"
    unfolding scan_inv_def by auto
  moreover from bad have "\<exists>(x, j)\<in>set heap. int (length (train ! nat j)) \<le> d" by blast
  ultimately have "vote_loop train d heap 0 = Inl OutOfBounds"
    by (rule vote_loop_out_of_range)
  with a r show "predictOne fp train test k d = Inl OutOfBounds"
    by (simp add: predictOne_def)
qed

theorem label_read_in_bounds_witness:
  "(0::int) \<le> 1 \<and> (1::int) \<le> int (length [0::real]) \<and>
   (1::int) + 1 \<le> int (length [0, 0::real]) \<and>
   predictOne exact [[0, 0]] [0] 1 1 \<noteq> Inl OutOfBounds \<and>
   calcDistEuclidean exact [0] [0, 0] 1 \<noteq> Inl OutOfBounds \<and>
   features_ok [[0]] [0] 1 \<and>
   calcDistEuclidean exact [0] [0] 1 \<noteq> Inl OutOfBounds \<and>
   scan_loop exact [[0]] [0] 1 1 0 [] = Inr [(0, 0)] \<and>
   int (length ([[0::real]] ! nat 0)) \<le> 1 \<and>
   predictOne exact [[0]] [0] 1 1 = Inl OutOfBounds"
proof -
  have f: "features_ok [[0]] [0] 1" by (simp add: features_ok_def)
  have s: "scan_loop exact [[0]] [0] 1 1 0 [] = Inr [(0, 0)]" by (simp add: eval_simps)
  from label_read_in_bounds [where fp = exact and d = 1 and test = "[0]" and train = "[[0, 0]]" and k = 1]
  have a: "predictOne exact [[0, 0]] [0] 1 1 \<noteq> Inl OutOfBounds"
    "calcDistEuclidean exact [0] [0, 0] 1 \<noteq> Inl OutOfBounds" by simp_all
  from label_read_in_bounds [where fp = exact and d = 1 and test = "[0]" and train = "[[0]]" and k = 1] f s
  have b: "calcDistEuclidean exact [0] [0] 1 \<noteq> Inl OutOfBounds"
    "predictOne exact [[0]] [0] 1 1 = Inl OutOfBounds" by simp_all
  from a b f s show ?thesis by simp
qed

section \<open>The batch\<close>

lemma findKNN_throw:
  "predictOne fp train point k d = Inl e \<Longrightarrow>
   findKNN fp train (point # points) k d = (point # points, Some e)"
  by simp

lemma findKNN_label:
  "predictOne fp train point k d = Inr cls \<Longrightarrow>
   findKNN fp train (point # points) k d =
     ((point @ [real_of_int cls]) # fst (findKNN fp train points k d),
      snd (findKNN fp train points k d))"
  by (simp add: case_prod_beta)

lemma findKNN_length: "length (fst (findKNN fp train points k d)) = length points"
  by (induction points) (auto simp: case_prod_beta split: sum.splits)

lemma findKNN_all_labelled:
  assumes "\<forall>p\<in>set points. \<exists>c. predictOne fp train p k d = Inr c"
  shows "findKNN fp train points k d =
         (map (\<lambda>p. p @ [real_of_int (projr (predictOne fp train p k d))]) points, None)"
  using assms
proof (induction points)
  case Nil
  then show ?case by simp
next
  case (Cons p ps)
  from Cons.prems obtain c where c: "predictOne fp train p k d = Inr c" by auto
  from Cons.prems have "\<forall>q\<in>set ps. \<exists>c. predictOne fp train q k d = Inr c" by simp
  from Cons.IH [OF this] c show ?case by (simp add: findKNN_label)
qed

text \<open>
  Claim C4 (order and frame of the batch). For \<open>k > 0\<close>, \<open>|train| \<ge> k\<close>, training vectors with
  a label at index \<open>d\<close> and test points with at least \<open>d\<close> components, findKNN ends without
  an exception and leaves in \<open>test_points\<close> as many points as it was given, in the same
  order: the point at position \<open>i\<close> is the original point at position \<open>i\<close> followed by one
  more component, the prediction of predictOne for that original point, which is 0 or 1.
  The training set is a read-only argument of the model, as it is a const reference in the
  source.
\<close>

theorem findKNN_appends_labels_in_order:
  assumes "0 < k" "k \<le> int (length train)" "labels_ok train d"
    and "\<forall>p\<in>set test_points. features_ok train p d"
  shows "\<exists>cs. length cs = length test_points \<and>
           (\<forall>i<length test_points.
              predictOne fp train (test_points ! i) k d = Inr (cs ! i) \<and> (cs ! i = 0 \<or> cs ! i = 1)) \<and>
           findKNN fp train test_points k d =
             (map2 (\<lambda>p c. p @ [real_of_int c]) test_points cs, None)"
proof -
  let ?c = "\<lambda>p. projr (predictOne fp train p k d)"
  have ret: "\<exists>c. predictOne fp train p k d = Inr c \<and> (c = 0 \<or> c = 1)" if "p \<in> set test_points" for p
    using that assms by (intro predictOne_returns) auto
  then have "\<forall>p\<in>set test_points. \<exists>c. predictOne fp train p k d = Inr c" by blast
  from findKNN_all_labelled [OF this]
  have "findKNN fp train test_points k d =
        (map (\<lambda>p. p @ [real_of_int (?c p)]) test_points, None)" .
  also have "map (\<lambda>p. p @ [real_of_int (?c p)]) test_points =
             map2 (\<lambda>p c. p @ [real_of_int c]) test_points (map ?c test_points)"
    by (simp add: zip_map2 zip_same_conv_map comp_def case_prod_beta)
  finally have "findKNN fp train test_points k d =
        (map2 (\<lambda>p c. p @ [real_of_int c]) test_points (map ?c test_points), None)" .
  moreover have "predictOne fp train (test_points ! i) k d = Inr (map ?c test_points ! i) \<and>
      (map ?c test_points ! i = 0 \<or> map ?c test_points ! i = 1)" if "i < length test_points" for i
    using ret [of "test_points ! i"] that by auto
  ultimately show ?thesis
    by (intro exI [of _ "map ?c test_points"]) simp
qed

theorem findKNN_appends_labels_in_order_witness:
  "(0::int) < 1 \<and> 1 \<le> int (length [[0, 0], [4, 1::real]]) \<and>
   labels_ok [[0, 0], [4, 1]] 1 \<and>
   features_ok [[0, 0], [4, 1]] [3] 1 \<and>
   features_ok [[0, 0], [4, 1]] [1] 1 \<and>
   features_ok [[0, 0], [4, 1]] [4] 1 \<and>
   findKNN exact [[0, 0], [4, 1]] [[3], [1], [4]] 1 1 = ([[3, 1], [1, 0], [4, 1]], None) \<and>
   (\<exists>cs. length cs = length [[3], [1], [4::real]] \<and>
      findKNN exact [[0, 0], [4, 1]] [[3], [1], [4]] 1 1 =
        (map2 (\<lambda>p c. p @ [real_of_int c]) [[3], [1], [4]] cs, None))"
proof -
  have a: "(0::int) < 1" by simp
  have b: "1 \<le> int (length [[0, 0], [4, 1::real]])" by simp
  have c: "labels_ok [[0, 0], [4, 1]] 1" by (simp add: labels_ok_def)
  have d: "\<forall>p\<in>set [[3], [1], [4]]. features_ok [[0, 0], [4, 1]] p 1"
    by (simp add: features_ok_def)
  have e: "findKNN exact [[0, 0], [4, 1]] [[3], [1], [4]] 1 1 =
     ([[3, 1], [1, 0], [4, 1]], None)"
    by (simp add: eval_simps)
  from d have d': "features_ok [[0, 0], [4, 1]] [3] 1" "features_ok [[0, 0], [4, 1]] [1] 1"
    "features_ok [[0, 0], [4, 1]] [4] 1" by simp_all
  from findKNN_appends_labels_in_order [OF a b c d, of exact] a b c d' e show ?thesis by blast
qed

text \<open>
  Claim C7 (an invalid \<open>k\<close> aborts the batch). When \<open>k \<le> 0\<close> or \<open>k > |train|\<close>, findKNN leaves
  \<open>test_points\<close> as it was: no point gets a label. If there is a test point at all, the call
  is left through the InvalidArgument exception that predictOne throws for the first point;
  on an empty batch predictOne is never called and there is nothing to abort.
\<close>

theorem findKNN_invalid_k_no_partial_result:
  assumes "k \<le> 0 \<or> int (length train) < k"
  shows "fst (findKNN fp train test_points k d) = test_points \<and>
         (test_points \<noteq> [] \<longrightarrow>
            (\<exists>msg. snd (findKNN fp train test_points k d) = Some (InvalidArgument msg))) \<and>
         (test_points = [] \<longrightarrow> snd (findKNN fp train test_points k d) = None)"
proof (cases test_points)
  case Nil
  then show ?thesis by simp
next
  case (Cons p ps)
  from assms obtain msg where "predictOne fp train p k d = Inl (InvalidArgument msg)"
    by (cases "k \<le> 0") (auto simp: predictOne_k_nonpositive predictOne_k_too_large)
  with Cons show ?thesis by (simp add: findKNN_throw)
qed

theorem findKNN_invalid_k_no_partial_result_witness:
  "((0::int) \<le> 0 \<or> int (length [[0, 0], [4, 1::real]]) < 0) \<and>
   findKNN exact [[0, 0], [4, 1]] [[3], [1]] 0 1 =
     ([[3], [1]], Some (InvalidArgument ''k must be > 0'')) \<and>
   ((3::int) \<le> 0 \<or> int (length [[0, 0], [4, 1::real]]) < 3) \<and>
   fst (findKNN exact [[0, 0], [4, 1]] [[3], [1]] 3 1) = [[3], [1]] \<and>
   (\<exists>msg. snd (findKNN exact [[0, 0], [4, 1]] [[3], [1]] 3 1) = Some (InvalidArgument msg))"
proof -
  have a: "(0::int) \<le> 0 \<or> int (length [[0, 0], [4, 1::real]]) < 0" by simp
  have b: "(3::int) \<le> 0 \<or> int (length [[0, 0], [4, 1::real]]) < 3" by simp
  have c: "findKNN exact [[0, 0], [4, 1]] [[3], [1]] 0 1 =
     ([[3], [1]], Some (InvalidArgument ''k must be > 0''))"
    by (simp add: predictOne_def)
  from findKNN_invalid_k_no_partial_result [OF b, of exact "[[3], [1]]" 1]
    findKNN_invalid_k_no_partial_result [OF a, of exact "[[3], [1]]" 1] a b c
  show ?thesis by simp
qed

end
